theory Spec2Isabelle
  imports Complex_Main "HOL-Library.Word" "HOL-Library.Log_Nat"
begin

section \<open>The model of Arduboy2Beep.h\<close>

text \<open>
  The header declares two classes, \<open>BeepPin1\<close> and \<open>BeepPin2\<close>, with the same members:
  the static counter \<open>duration\<close> (an \<open>uint8_t\<close>) and the functions \<open>begin\<close>, \<open>tone\<close>
  (two overloads), \<open>timer\<close>, \<open>noTone\<close> and \<open>freq\<close>. Only \<open>freq\<close> has a body in the header;
  the bodies of the other functions live in a translation unit that is not part of the
  sources at hand, so their model below follows the specification
  (where they are called \<open>begin\<close>, \<open>playTone\<close>, \<open>tick\<close> and \<open>stopTone\<close>, and the counter
  \<open>remainingTicks\<close>).
\<close>

subsection \<open>Channel state\<close>

datatype output_mode = Silent | Sounding

text \<open>
  One record per channel. \<open>duration\<close> is the static member of the class; the other fields
  are the hardware the channel owns: whether the timer's autonomous pin-toggle output is
  enabled (\<open>mode\<close>), the comparison/reload register (\<open>count_reg\<close>), whether the timer has
  been put into its tone-generating configuration (\<open>configured\<close>), and the direction and
  level of the output pin.
\<close>

record channel =
  duration :: "8 word"
  mode :: output_mode
  count_reg :: "16 word"
  configured :: bool
  pin_output :: bool
  pin_high :: bool

text \<open>
  The state of a channel when the program starts: \<open>duration\<close> is a static member of
  integer type and therefore zero; the hardware registers hold whatever they hold.
\<close>

definition startup :: "output_mode \<Rightarrow> 16 word \<Rightarrow> bool \<Rightarrow> bool \<Rightarrow> bool \<Rightarrow> channel" where
  "startup m c cfg po ph =
     \<lparr>duration = 0, mode = m, count_reg = c, configured = cfg, pin_output = po, pin_high = ph\<rparr>"

text \<open>
  Modelled from the spec: the body of \<open>begin()\<close> is missing. The specification (4.2, 6):
  configure the owned pin as a digital output driven low, and configure the owned timer
  into the mode in which it toggles the pin by itself once started, in the disabled
  (silent) initial state.
\<close>

definition begin_chan :: "channel \<Rightarrow> channel" where
  "begin_chan s = s\<lparr>pin_output := True, pin_high := False, configured := True, mode := Silent\<rparr>"

text \<open>
  Modelled from the spec: the body of \<open>tone(count)\<close> is missing. The specification (4.3,
  \<open>playTone(count)\<close>): load \<open>count\<close> into the comparison/reload register, enable the
  pin-toggle output mode, and clear any pending duration.
\<close>

definition tone :: "channel \<Rightarrow> 16 word \<Rightarrow> channel" where
  "tone s count = s\<lparr>count_reg := count, mode := Sounding, duration := 0\<rparr>"

text \<open>
  Modelled from the spec: the body of \<open>tone(count, dur)\<close> is missing. The specification
  (4.3, \<open>playTone(count, ticks)\<close>): identical to the overload above, but additionally
  sets the counter to \<open>ticks\<close>.
\<close>

definition tone_dur :: "channel \<Rightarrow> 16 word \<Rightarrow> 8 word \<Rightarrow> channel" where
  "tone_dur s count dur = (tone s count)\<lparr>duration := dur\<rparr>"

text \<open>
  Modelled from the spec: the body of \<open>noTone()\<close> is missing. The specification (4.3,
  \<open>stopTone()\<close>): disable the pin-toggle output mode and force the pin to its inactive
  level, unconditionally.
\<close>

definition noTone :: "channel \<Rightarrow> channel" where
  "noTone s = s\<lparr>mode := Silent, pin_high := False\<rparr>"

text \<open>
  Modelled from the spec: the body of \<open>timer()\<close> is missing. The specification (4.4,
  \<open>tick()\<close>): if the counter is greater than 0, decrement it by 1; if the decrement
  brings it to exactly 0, do what \<open>stopTone()\<close> does. If the counter is already 0 the
  call has no effect.
\<close>

definition timer :: "channel \<Rightarrow> channel" where
  "timer s =
     (if duration s \<noteq> 0
      then (let s' = s\<lparr>duration := duration s - 1\<rparr>
            in if duration s' = 0 then noTone s' else s')
      else s)"


subsection \<open>Single-precision arithmetic\<close>

text \<open>
  \<open>freq\<close> takes a \<open>float\<close> and computes in \<open>float\<close>: on the targets of this library
  that is the IEEE 754 binary32 format (24 significant bits, exponents from \<open>-126\<close> to
  \<open>127\<close>, gradual underflow down to \<open>2 powi - 149\<close>), with every operation rounded to
  nearest, ties to even. A finite \<open>float\<close> is modelled by the rational number it denotes,
  and an operation by the exact operation on rationals followed by \<open>fl32\<close>.

  \<open>ilog2 x\<close> is the binary exponent of a positive \<open>x\<close>, the integer \<open>e\<close> with
  \<open>2 powi e \<le> x < 2 powi (e + 1)\<close>.
\<close>

definition ilog2 :: "rat \<Rightarrow> int" where
  "ilog2 x = (if 1 \<le> x then bitlen \<lfloor>x\<rfloor> - 1 else - bitlen (\<lceil>1 / x\<rceil> - 1))"

text \<open>Rounding to the nearest integer, ties to the even one.\<close>

definition rne :: "rat \<Rightarrow> int" where
  "rne x = (let f = \<lfloor>x\<rfloor>; d = x - of_int f
            in if d < 1 / 2 then f else if 1 / 2 < d then f + 1
               else if even f then f else f + 1)"

text \<open>The exponent of the unit in the last place of the binary32 values around \<open>x\<close>.\<close>

definition ulp_exp :: "rat \<Rightarrow> int" where
  "ulp_exp x = max (ilog2 \<bar>x\<bar> - 23) (- 149)"

text \<open>
  Rounding to binary32 with an unbounded exponent range upwards. A result of magnitude
  \<open>2 ^ 128\<close> or more stands for an infinity (see \<open>finite32\<close>).
\<close>

definition fl32 :: "rat \<Rightarrow> rat" where
  "fl32 x = (if x = 0 then 0 else of_int (rne (x / 2 powi ulp_exp x)) * 2 powi ulp_exp x)"

definition finite32 :: "rat \<Rightarrow> bool" where
  "finite32 x \<longleftrightarrow> \<bar>x\<bar> < 2 ^ 128"

text \<open>
  The conversion of a \<open>float\<close> to \<open>uint16_t\<close> discards the fractional part (truncation
  towards zero). The C++ standard defines the result only when the truncated value fits
  the destination type; otherwise the behaviour is undefined, which is \<open>None\<close> here.
\<close>

definition ftrunc :: "rat \<Rightarrow> int" where
  "ftrunc x = (if 0 \<le> x then \<lfloor>x\<rfloor> else \<lceil>x\<rceil>)"

definition float_to_u16 :: "rat \<Rightarrow> 16 word option" where
  "float_to_u16 x =
     (let t = ftrunc x in if 0 \<le> t \<and> t < 65536 then Some (word_of_int t) else None)"

text \<open>Integer division of C++, which truncates towards zero.\<close>

definition cdiv :: "int \<Rightarrow> int \<Rightarrow> int" where
  "cdiv a b = sgn a * sgn b * (\<bar>a\<bar> div \<bar>b\<bar>)"

subsection \<open>The frequency-to-count conversion\<close>

text \<open>
  \<^verbatim>\<open>
  static constexpr uint16_t freq(const float hz)
  {
    return (uint16_t) (((F_CPU / 8 / 2) + (hz / 2)) / hz) - 1;
  }
  \<close>
  \<open>F_CPU\<close> is a macro for the clock rate in hertz, an integer literal defined outside this
  header: it is a parameter of the model. \<open>F_CPU / 8 / 2\<close> is an integer division; the sum
  converts that integer to \<open>float\<close> and adds \<open>hz / 2\<close>; the quotient by \<open>hz\<close> is a \<open>float\<close>;
  the cast binds tighter than the subtraction, so the quotient is converted to \<open>uint16_t\<close>
  first and \<open>1\<close> is subtracted afterwards, modulo \<open>2 ^ 16\<close> on return. The argument \<open>hz\<close> is a
  finite \<open>float\<close>. A division by zero or an overflow yields an infinity or a NaN, whose
  conversion to \<open>uint16_t\<close> is undefined.
\<close>

definition BeepPin1_freq :: "int \<Rightarrow> rat \<Rightarrow> 16 word option" where
  "BeepPin1_freq F_CPU hz =
     (let n = fl32 (of_int (cdiv (cdiv F_CPU 8) 2));
          a = fl32 (n + fl32 (hz / 2));
          q = fl32 (a / hz)
      in if hz = 0 \<or> \<not> finite32 n \<or> \<not> finite32 a then None
         else map_option (\<lambda>w. w - 1) (float_to_u16 q))"

text \<open>
  With \<open>__SAMD51__\<close> defined, class \<open>BeepPin1\<close> has this function instead:
  \<^verbatim>\<open>
  // on samd51 we use tone() so dont do any conversion!
  static constexpr uint16_t freq(const float hz) { return hz; }
  \<close>
\<close>

definition BeepPin1_freq_samd51 :: "rat \<Rightarrow> 16 word option" where
  "BeepPin1_freq_samd51 hz = float_to_u16 hz"

text \<open>
  Class \<open>BeepPin2\<close>:
  \<^verbatim>\<open>
  static constexpr uint16_t freq(const float hz)
  {
    return (uint16_t) (((F_CPU / 128 / 2) + (hz / 2)) / hz) - 1;
  }
  \<close>
\<close>

definition BeepPin2_freq :: "int \<Rightarrow> rat \<Rightarrow> 16 word option" where
  "BeepPin2_freq F_CPU hz =
     (let n = fl32 (of_int (cdiv (cdiv F_CPU 128) 2));
          a = fl32 (n + fl32 (hz / 2));
          q = fl32 (a / hz)
      in if hz = 0 \<or> \<not> finite32 n \<or> \<not> finite32 a then None
         else map_option (\<lambda>w. w - 1) (float_to_u16 q))"

text \<open>
  The two bodies differ only in the constant \<open>F_CPU / 8 / 2\<close> or \<open>F_CPU / 128 / 2\<close>.
  \<open>count_of c\<close> is that body for the constant \<open>c\<close>; it serves to prove facts about both
  functions at once.
\<close>

definition count_of :: "int \<Rightarrow> rat \<Rightarrow> 16 word option" where
  "count_of c hz =
     (let n = fl32 (of_int c);
          a = fl32 (n + fl32 (hz / 2));
          q = fl32 (a / hz)
      in if hz = 0 \<or> \<not> finite32 n \<or> \<not> finite32 a then None
         else map_option (\<lambda>w. w - 1) (float_to_u16 q))"

text \<open>
  The quotient that \<open>count_of\<close> converts to an integer, for an argument \<open>hz\<close> whose half is
  a \<open>float\<close> again: the rounded sum over \<open>hz\<close>, rounded.
\<close>

definition fquot :: "int \<Rightarrow> rat \<Rightarrow> rat" where
  "fquot n hz = fl32 (fl32 (of_int n + hz / 2) / hz)"

subsection \<open>The conversion as the specification words it\<close>

text \<open>
  The specification gives the count as \<open>round((ClockRate/8/2) / hz) - 1\<close> for channel A
  and \<open>round((ClockRate/128/2) / hz) - 1\<close> for channel B, over the real numbers, rounding
  to nearest with ties upwards.
\<close>

definition round_half_up :: "rat \<Rightarrow> int" where
  "round_half_up x = \<lfloor>x + 1 / 2\<rfloor>"

definition spec_count :: "int \<Rightarrow> rat \<Rightarrow> int" where
  "spec_count n hz = round_half_up (of_int n / hz) - 1"

text \<open>
  The inverse formula of the header's documentation, \<open>frequency = 1000000 / (count + 1)\<close>
  for \<open>BeepPin1\<close> and \<open>62500 / (count + 1)\<close> for \<open>BeepPin2\<close> at 16 MHz: the prescaled clock
  rate halved, \<open>n\<close>, over \<open>count + 1\<close>. \<open>freq_step n c\<close> is the distance between the
  frequencies of the adjacent counts \<open>c\<close> and \<open>c + 1\<close>.
\<close>

definition count_frequency :: "int \<Rightarrow> int \<Rightarrow> rat" where
  "count_frequency n c = of_int n / of_int (c + 1)"

definition freq_step :: "int \<Rightarrow> int \<Rightarrow> rat" where
  "freq_step n c = count_frequency n c - count_frequency n (c + 1)"

section \<open>The duration countdown\<close>


lemma timer_zero: "duration s = 0 \<Longrightarrow> timer s = s"
  by (simp add: timer_def)

lemma timer_iter_zero: "duration s = 0 \<Longrightarrow> (timer ^^ k) s = s"
  by (induction k) (simp_all add: timer_zero)

lemma timer_step:
  "duration s \<noteq> 0 \<Longrightarrow>
   timer s = (if duration s = 1 then noTone (s\<lparr>duration := 0\<rparr>)
              else s\<lparr>duration := duration s - 1\<rparr>)"
  by (simp add: timer_def Let_def)

lemma unat_sub_of_nat:
  fixes d :: "8 word"
  assumes "k \<le> unat d"
  shows "unat (d - of_nat k) = unat d - k"
proof -
  have "unat d < 2 ^ LENGTH(8)" by (rule unsigned_less)
  then have "unat d < 256" by simp
  with assms have k: "k < 256" by simp
  then have uk: "unat (of_nat k :: 8 word) = k"
    by (simp add: unat_of_nat)
  with assms have "(of_nat k :: 8 word) \<le> d"
    by (simp add: word_le_nat_alt)
  then show ?thesis using uk by (simp add: unat_sub)
qed

lemma timer_iter_running:
  "k < unat (duration s) \<Longrightarrow> (timer ^^ k) s = s\<lparr>duration := duration s - of_nat k\<rparr>"
proof (induction k)
  case 0
  then show ?case by simp
next
  case (Suc k)
  let ?d = "duration s - of_nat k"
  from Suc.prems have k: "k < unat (duration s)" by simp
  have ud: "unat ?d = unat (duration s) - k"
    using k by (simp add: unat_sub_of_nat)
  with Suc.prems have "unat ?d \<noteq> 0" "unat ?d \<noteq> 1" by simp_all
  then have nz: "?d \<noteq> 0" "?d \<noteq> 1" by auto
  have "(timer ^^ Suc k) s = timer (s\<lparr>duration := ?d\<rparr>)"
    using Suc.IH [OF k] by simp
  also have "\<dots> = s\<lparr>duration := ?d - 1\<rparr>"
    using nz by (simp add: timer_step)
  also have "?d - 1 = duration s - of_nat (Suc k)" by simp
  finally show ?case .
qed

lemma timer_iter_last:
  assumes "duration s \<noteq> 0"
  shows "(timer ^^ unat (duration s)) s = noTone (s\<lparr>duration := 0\<rparr>)"
proof -
  from assms have pos: "0 < unat (duration s)" by (simp add: unat_gt_0)
  then obtain k where k: "unat (duration s) = Suc k" by (cases "unat (duration s)") auto
  let ?d = "duration s - of_nat k"
  have "unat ?d = unat (duration s) - k"
    using k by (simp add: unat_sub_of_nat)
  with k have "unat ?d = 1" by simp
  then have one: "?d = 1" by (simp add: word_unat_eq_iff)
  have "(timer ^^ Suc k) s = timer (s\<lparr>duration := ?d\<rparr>)"
    using timer_iter_running [of k s] k by simp
  also have "\<dots> = noTone (s\<lparr>duration := 0\<rparr>)"
    using one by (simp add: timer_step)
  finally show ?thesis using k by simp
qed


section \<open>Properties of the rounding\<close>

lemma ilog2_bounds:
  assumes "0 < x"
  shows "2 powi ilog2 x \<le> x" and "x < 2 powi (ilog2 x + 1)"
proof -
  have "2 powi ilog2 x \<le> x \<and> x < 2 powi (ilog2 x + 1)"
  proof (cases "1 \<le> x")
    case True
    define n where "n = \<lfloor>x\<rfloor>"
    have n: "0 < n" using True by (simp add: n_def)
    have b1: "1 \<le> bitlen n" using n by (simp add: bitlen_alt_def)
    from bitlen_bounds [OF n] have lo: "2 ^ nat (bitlen n - 1) \<le> n" and hi: "n < 2 ^ nat (bitlen n)"
      by simp_all
    have "(2::rat) powi (bitlen n - 1) = of_int (2 ^ nat (bitlen n - 1))"
      using b1 by (simp add: power_int_def)
    also have "\<dots> \<le> of_int n" using lo by (simp only: of_int_le_iff)
    also have "\<dots> \<le> x" by (simp add: n_def)
    finally have A: "(2::rat) powi (bitlen n - 1) \<le> x" .
    have "n + 1 \<le> 2 ^ nat (bitlen n)" using hi by simp
    then have "(of_int (n + 1) :: rat) \<le> of_int (2 ^ nat (bitlen n))"
      by (simp only: of_int_le_iff)
    moreover have "x < of_int (n + 1)" unfolding n_def by linarith
    ultimately have "x < of_int (2 ^ nat (bitlen n))" by simp
    also have "\<dots> = (2::rat) powi (bitlen n)" using b1 by (simp add: power_int_def)
    finally have B: "x < 2 powi (bitlen n - 1 + 1)" by simp
    show ?thesis using A B True by (simp add: ilog2_def n_def)
  next
    case False
    define y where "y = 1 / x"
    define m where "m = \<lceil>y\<rceil> - 1"
    have y1: "1 < y" using False assms by (simp add: y_def)
    then have m: "0 < m" by (simp add: m_def less_ceiling_iff)
    have b1: "1 \<le> bitlen m" using m by (simp add: bitlen_alt_def)
    from bitlen_bounds [OF m] have lo: "2 ^ nat (bitlen m - 1) \<le> m" and hi: "m < 2 ^ nat (bitlen m)"
      by simp_all
    have ym: "of_int m < y" unfolding m_def by linarith
    have ym1: "y \<le> of_int (m + 1)" unfolding m_def by linarith
    have "m + 1 \<le> 2 ^ nat (bitlen m)" using hi by simp
    then have "(of_int (m + 1) :: rat) \<le> of_int (2 ^ nat (bitlen m))"
      by (simp only: of_int_le_iff)
    with ym1 have "y \<le> of_int (2 ^ nat (bitlen m))" by simp
    then have yle: "y \<le> 2 ^ nat (bitlen m)" by simp
    have "(2::rat) ^ nat (bitlen m - 1) = of_int (2 ^ nat (bitlen m - 1))" by simp
    also have "\<dots> \<le> of_int m" using lo by (simp only: of_int_le_iff)
    also note ym
    finally have ygt: "2 ^ nat (bitlen m - 1) < y" .
    have "(2::rat) powi (- bitlen m) = 1 / 2 ^ nat (bitlen m)"
      using b1 by (simp add: power_int_def field_simps)
    also have "\<dots> \<le> x" using yle assms by (simp add: y_def field_simps)
    finally have A: "(2::rat) powi (- bitlen m) \<le> x" .
    have "x < 1 / 2 ^ nat (bitlen m - 1)" using ygt assms by (simp add: y_def field_simps)
    also have "\<dots> = (2::rat) powi (- bitlen m + 1)"
      using b1 by (simp add: power_int_def field_simps nat_diff_distrib)
    finally have B: "x < 2 powi (- bitlen m + 1)" .
    show ?thesis using A B False by (simp add: ilog2_def m_def y_def)
  qed
  then show "2 powi ilog2 x \<le> x" and "x < 2 powi (ilog2 x + 1)" by simp_all
qed

lemma ilog2_unique:
  assumes "2 powi e \<le> x" and "x < 2 powi (e + 1)"
  shows "ilog2 x = e"
proof -
  have "(0::rat) < 2 powi e" by simp
  then have x: "0 < x" using assms(1) by (rule less_le_trans)
  have "(2::rat) powi ilog2 x < 2 powi (e + 1)"
    using ilog2_bounds(1) [OF x] assms(2) by simp
  then have a: "ilog2 x < e + 1"
    by (metis not_less power_int_increasing one_le_numeral)
  have "(2::rat) powi e < 2 powi (ilog2 x + 1)"
    using ilog2_bounds(2) [OF x] assms(1) by simp
  then have b: "e < ilog2 x + 1"
    by (metis not_less power_int_increasing one_le_numeral)
  from a b show ?thesis by simp
qed



lemma rne_ge: "of_int a \<le> x \<Longrightarrow> a \<le> rne x"
proof -
  assume "of_int a \<le> x"
  then have "a \<le> \<lfloor>x\<rfloor>" by (simp add: le_floor_iff)
  moreover have "\<lfloor>x\<rfloor> \<le> rne x" by (simp add: rne_def Let_def)
  ultimately show ?thesis by simp
qed

lemma rne_le: "x \<le> of_int b \<Longrightarrow> rne x \<le> b"
proof -
  assume le: "x \<le> of_int b"
  show ?thesis
  proof (cases "x = of_int b")
    case True
    then show ?thesis by (simp add: rne_def)
  next
    case False
    with le have "x < of_int b" by simp
    then have "\<lfloor>x\<rfloor> < b" by (simp add: floor_less_iff)
    moreover have "rne x \<le> \<lfloor>x\<rfloor> + 1" by (simp add: rne_def Let_def)
    ultimately show ?thesis by simp
  qed
qed

lemma rne_of_int: "rne (of_int a) = a"
  by (simp add: rne_def)

lemma fl32_ge_grid:
  assumes "of_int a * 2 powi ulp_exp x \<le> x"
  shows "of_int a * 2 powi ulp_exp x \<le> fl32 x"
proof (cases "x = 0")
  case True
  with assms show ?thesis by (simp add: fl32_def)
next
  case False
  let ?u = "(2::rat) powi ulp_exp x"
  have u: "0 < ?u" by simp
  from assms u have "of_int a \<le> x / ?u" by (simp add: pos_le_divide_eq)
  then have "a \<le> rne (x / ?u)" by (rule rne_ge)
  then have "(of_int a :: rat) \<le> of_int (rne (x / ?u))" by (simp only: of_int_le_iff)
  then have "of_int a * ?u \<le> of_int (rne (x / ?u)) * ?u"
    using u by (simp only: mult_le_cancel_right_pos)
  with False show ?thesis by (simp add: fl32_def)
qed

lemma fl32_le_grid:
  assumes "x \<le> of_int b * 2 powi ulp_exp x"
  shows "fl32 x \<le> of_int b * 2 powi ulp_exp x"
proof (cases "x = 0")
  case True
  with assms show ?thesis by (simp add: fl32_def)
next
  case False
  let ?u = "(2::rat) powi ulp_exp x"
  have u: "0 < ?u" by simp
  from assms u have "x / ?u \<le> of_int b" by (simp add: pos_divide_le_eq)
  then have "rne (x / ?u) \<le> b" by (rule rne_le)
  then have "(of_int (rne (x / ?u)) :: rat) \<le> of_int b" by (simp only: of_int_le_iff)
  then have "of_int (rne (x / ?u)) * ?u \<le> of_int b * ?u"
    using u by (simp only: mult_le_cancel_right_pos)
  with False show ?thesis by (simp add: fl32_def)
qed

lemma fl32_grid: "x = of_int m * 2 powi ulp_exp x \<Longrightarrow> fl32 x = x"
  using fl32_ge_grid [of m x] fl32_le_grid [of x m] by simp

lemma ulp_exp_eq:
  assumes "2 powi e \<le> \<bar>x\<bar>" and "\<bar>x\<bar> < 2 powi (e + 1)" and "- 126 \<le> e"
  shows "ulp_exp x = e - 23"
  using ilog2_unique [OF assms(1,2)] assms(3) by (simp add: ulp_exp_def)

lemma ulp_exp_range:
  assumes "2 powi lo \<le> \<bar>x\<bar>" and "\<bar>x\<bar> < 2 powi hi" and "- 126 \<le> lo"
  shows "lo - 23 \<le> ulp_exp x" and "ulp_exp x < hi - 23" and "2 powi (ulp_exp x + 23) \<le> \<bar>x\<bar>"
proof -
  have x: "0 < \<bar>x\<bar>" using assms(1) by (rule less_le_trans [OF zero_less_power_int, rotated]) simp
  have "(2::rat) powi lo < 2 powi (ilog2 \<bar>x\<bar> + 1)"
    using ilog2_bounds(2) [OF x] assms(1) by simp
  then have a: "lo < ilog2 \<bar>x\<bar> + 1"
    by (metis not_less power_int_increasing one_le_numeral)
  have "(2::rat) powi (ilog2 \<bar>x\<bar>) < 2 powi hi"
    using ilog2_bounds(1) [OF x] assms(2) by simp
  then have b: "ilog2 \<bar>x\<bar> < hi"
    by (metis not_less power_int_increasing one_le_numeral)
  from a assms(3) have eq: "ulp_exp x = ilog2 \<bar>x\<bar> - 23" by (simp add: ulp_exp_def)
  show "lo - 23 \<le> ulp_exp x" using a eq by simp
  show "ulp_exp x < hi - 23" using b eq by simp
  show "2 powi (ulp_exp x + 23) \<le> \<bar>x\<bar>" using ilog2_bounds(1) [OF x] eq by simp
qed

lemma fl32_dyadic:
  assumes "x = of_int m * 2 powi j" and "ulp_exp x \<le> j"
  shows "fl32 x = x"
proof -
  define n where "n = nat (j - ulp_exp x)"
  have "j = ulp_exp x + int n" using assms(2) by (simp add: n_def)
  then have "(2::rat) powi j = 2 powi ulp_exp x * 2 ^ n"
    by (simp add: power_int_add)
  then have "of_int m * 2 powi j = of_int (m * 2 ^ n) * (2::rat) powi ulp_exp x" by simp
  with assms(1) have "x = of_int (m * 2 ^ n) * 2 powi ulp_exp x" by (simp only:)
  then show ?thesis by (rule fl32_grid)
qed

lemma fl32_half_int:
  assumes "\<bar>m\<bar> < 2 ^ 24"
  shows "fl32 (of_int m / 2) = of_int m / 2"
proof (cases "m = 0")
  case True
  then show ?thesis by (simp add: fl32_def)
next
  case False
  let ?x = "of_int m / 2 :: rat"
  have "1 \<le> \<bar>m\<bar>" using False by simp
  then have "(1::rat) \<le> of_int \<bar>m\<bar>" by (simp only: of_int_1_le_iff)
  then have lo: "2 powi (- 1) \<le> \<bar>?x\<bar>" by (simp add: power_int_minus)
  have "(of_int \<bar>m\<bar> :: rat) < of_int (2 ^ 24)" using assms by (simp only: of_int_less_iff)
  then have hi: "\<bar>?x\<bar> < 2 powi 23" by simp
  from ulp_exp_range(2) [OF lo hi] have "ulp_exp ?x \<le> - 1" by simp
  moreover have "?x = of_int m * 2 powi (- 1)" by (simp add: power_int_minus)
  ultimately show ?thesis by (rule fl32_dyadic [rotated])
qed

lemma fl32_int:
  assumes "\<bar>m\<bar> < 2 ^ 23"
  shows "fl32 (of_int m) = of_int m"
proof -
  have "\<bar>2 * m\<bar> < 2 ^ 24" using assms by simp
  from fl32_half_int [OF this] show ?thesis by simp
qed

lemma floor_fl32:
  assumes "of_int k \<le> x" and "x \<le> of_int (k + 1) - 2 powi ulp_exp x" and "ulp_exp x \<le> 0"
  shows "\<lfloor>fl32 x\<rfloor> = k"
proof -
  let ?u = "(2::rat) powi ulp_exp x"
  define n where "n = nat (- ulp_exp x)"
  have "ulp_exp x = - int n" using assms(3) by (simp add: n_def)
  then have u: "?u = 1 / 2 ^ n" by (simp add: power_int_minus_divide)
  have upos: "0 < ?u" by simp
  have a: "of_int (k * 2 ^ n) * ?u = of_int k" by (simp add: u)
  have b: "of_int ((k + 1) * 2 ^ n - 1) * ?u = of_int (k + 1) - ?u"
    by (simp add: u field_simps)
  have "of_int (k * 2 ^ n) * ?u \<le> fl32 x"
    by (rule fl32_ge_grid) (simp only: a assms)
  then have lo: "of_int k \<le> fl32 x" by (simp only: a)
  have "fl32 x \<le> of_int ((k + 1) * 2 ^ n - 1) * ?u"
    by (rule fl32_le_grid) (simp only: b assms)
  then have "fl32 x \<le> of_int (k + 1) - ?u" by (simp only: b)
  then have hi: "fl32 x < of_int k + 1" using upos by (simp only: of_int_add of_int_1)
  from lo hi show ?thesis by (simp add: floor_unique)
qed


lemma quotient_floor:
  fixes N hz :: int
  assumes "0 < hz" and "0 \<le> N" and "2 * N + hz \<le> 2 ^ 23"
  shows "\<lfloor>fl32 (of_int (2 * N + hz) / 2 / of_int hz)\<rfloor> = (2 * N + hz) div (2 * hz)"
proof -
  define M where "M = 2 * N + hz"
  define D where "D = 2 * hz"
  define x :: rat where "x = of_int M / of_int D"
  define k where "k = M div D"
  have D: "0 < D" "2 \<le> D" using assms(1) by (simp_all add: D_def)
  have M: "0 < M" "hz \<le> M" "M \<le> 2 ^ 23" using assms by (simp_all add: M_def)
  have Dr: "(0::rat) < of_int D" using D by simp
  have k: "k = \<lfloor>x\<rfloor>" by (simp add: k_def x_def floor_divide_of_int_eq)
  have xk: "of_int k \<le> x" by (simp add: k)
  have "D \<le> 2 * M" using M by (simp add: D_def)
  then have "(of_int D :: rat) \<le> of_int (2 * M)" by (simp only: of_int_le_iff)
  then have xlo: "1 / 2 \<le> x" using Dr by (simp add: x_def field_simps)
  then have xpos: "0 < x" by simp
  have "(of_int M :: rat) \<le> of_int (2 ^ 23)" using M by (simp only: of_int_le_iff)
  then have Mr: "(of_int M :: rat) \<le> 2 ^ 23" by simp
  have "(of_int 2 :: rat) \<le> of_int D" using D by (simp only: of_int_le_iff)
  then have D2: "(2 :: rat) \<le> of_int D" by simp
  have "x * of_int D = of_int M" using Dr by (simp add: x_def)
  then have "x * 2 \<le> of_int M" using D2 xpos
    by (metis mult_left_mono less_imp_le)
  with Mr have xhi: "x < 2 ^ 23" by simp
  have lo': "2 powi (- 1) \<le> \<bar>x\<bar>" using xlo xpos by (simp add: power_int_minus)
  have hi': "\<bar>x\<bar> < 2 powi 23" using xhi xpos by simp
  have ue: "ulp_exp x < 0" using ulp_exp_range(2) [OF lo' hi'] by simp
  have "2 powi (ulp_exp x + 23) \<le> \<bar>x\<bar>" using ulp_exp_range(3) [OF lo' hi'] by simp
  then have "2 powi ulp_exp x * 2 ^ 23 \<le> x" using xpos by (simp add: power_int_add)
  also have "x \<le> 2 ^ 23 / of_int D" using Mr Dr by (simp add: x_def divide_right_mono)
  finally have u: "(2::rat) powi ulp_exp x \<le> 1 / of_int D" by (simp add: field_simps)
  have "M mod D < D" using D by simp
  moreover have "M = k * D + M mod D" by (simp add: k_def)
  ultimately have "M + 1 \<le> (k + 1) * D" by (simp add: algebra_simps)
  then have "(of_int (M + 1) :: rat) \<le> of_int ((k + 1) * D)" by (simp only: of_int_le_iff)
  then have "x + 1 / of_int D \<le> of_int (k + 1)"
    using Dr by (simp add: x_def field_simps)
  with u have "x \<le> of_int (k + 1) - 2 powi ulp_exp x" by simp
  from floor_fl32 [OF xk this] ue have "\<lfloor>fl32 x\<rfloor> = k" by simp
  then show ?thesis by (simp add: x_def k_def M_def D_def)
qed

lemma freq_body_whole:
  fixes N hz :: int
  assumes "0 < hz" and "0 \<le> N" and "2 * N + hz \<le> 2 ^ 23"
  shows "\<lfloor>fl32 (fl32 (fl32 (of_int N) + fl32 (of_int hz / 2)) / of_int hz)\<rfloor>
           = (2 * N + hz) div (2 * hz)"
    and "0 \<le> fl32 (fl32 (fl32 (of_int N) + fl32 (of_int hz / 2)) / of_int hz)"
proof -
  have n: "fl32 (of_int N) = of_int N" using assms by (intro fl32_int) simp
  have h: "fl32 (of_int hz / 2) = of_int hz / 2" using assms by (intro fl32_half_int) simp
  have "fl32 (of_int (2 * N + hz) / 2) = of_int (2 * N + hz) / 2"
    using assms by (intro fl32_half_int) simp
  moreover have "(of_int N :: rat) + of_int hz / 2 = of_int (2 * N + hz) / 2" by simp
  ultimately have s: "fl32 (of_int N + of_int hz / 2) = of_int (2 * N + hz) / 2" by (simp only:)
  show fl: "\<lfloor>fl32 (fl32 (fl32 (of_int N) + fl32 (of_int hz / 2)) / of_int hz)\<rfloor>
           = (2 * N + hz) div (2 * hz)"
    using quotient_floor [OF assms] by (simp only: n h s)
  have "0 \<le> (2 * N + hz) div (2 * hz)" using assms by (simp add: pos_imp_zdiv_nonneg_iff)
  with fl show "0 \<le> fl32 (fl32 (fl32 (of_int N) + fl32 (of_int hz / 2)) / of_int hz)"
    by (simp add: zero_le_floor [symmetric] del: zero_le_floor)
qed

lemma round_half_up_quotient:
  fixes N hz :: int
  assumes "0 < hz"
  shows "round_half_up (of_int N / of_int hz) = (2 * N + hz) div (2 * hz)"
proof -
  have "(of_int N / of_int hz + 1 / 2 :: rat) = of_int (2 * N + hz) / of_int (2 * hz)"
    using assms by (simp add: field_simps)
  then show ?thesis
    by (simp only: round_half_up_def floor_divide_of_int_eq)
qed


lemma cdiv_nonneg: "0 \<le> a \<Longrightarrow> 0 < b \<Longrightarrow> cdiv a b = a div b"
  by (cases "a = 0") (simp_all add: cdiv_def)

lemma BeepPin1_freq_count_of:
  "0 \<le> F_CPU \<Longrightarrow> BeepPin1_freq F_CPU hz = count_of (F_CPU div 8 div 2) hz"
  by (simp add: BeepPin1_freq_def count_of_def cdiv_nonneg pos_imp_zdiv_nonneg_iff)

lemma BeepPin2_freq_count_of:
  "0 \<le> F_CPU \<Longrightarrow> BeepPin2_freq F_CPU hz = count_of (F_CPU div 128 div 2) hz"
  by (simp add: BeepPin2_freq_def count_of_def cdiv_nonneg pos_imp_zdiv_nonneg_iff)

lemma count_of_whole:
  fixes n hz :: int
  assumes "0 < hz" and "0 \<le> n" and "2 * n + hz \<le> 2 ^ 23"
  shows "count_of n (of_int hz) =
           (if (2 * n + hz) div (2 * hz) < 65536
            then Some (word_of_int ((2 * n + hz) div (2 * hz) - 1)) else None)"
proof -
  let ?q = "fl32 (fl32 (fl32 (of_int n) + fl32 (of_int hz / 2)) / of_int hz)"
  let ?k = "(2 * n + hz) div (2 * hz)"
  have nn: "fl32 (of_int n) = of_int n" using assms by (intro fl32_int) simp
  have h: "fl32 (of_int hz / 2) = of_int hz / 2" using assms by (intro fl32_half_int) simp
  have "fl32 (of_int (2 * n + hz) / 2) = of_int (2 * n + hz) / 2"
    using assms by (intro fl32_half_int) simp
  moreover have "(of_int n :: rat) + of_int hz / 2 = of_int (2 * n + hz) / 2" by simp
  ultimately have s: "fl32 (of_int n + of_int hz / 2) = of_int (2 * n + hz) / 2" by (simp only:)
  have "\<bar>n\<bar> < 2 ^ 128" using assms by simp
  then have "(of_int \<bar>n\<bar> :: rat) < of_int (2 ^ 128)" by (simp only: of_int_less_iff)
  then have f1: "finite32 (of_int n)" by (simp add: finite32_def)
  have "\<bar>2 * n + hz\<bar> < 2 ^ 128" using assms by simp
  then have "(of_int \<bar>2 * n + hz\<bar> :: rat) < of_int (2 ^ 128)" by (simp only: of_int_less_iff)
  then have f2: "finite32 (of_int (2 * n + hz) / 2)" by (simp add: finite32_def)
  have fl: "\<lfloor>?q\<rfloor> = ?k" and q0: "0 \<le> ?q" using freq_body_whole [OF assms] by simp_all
  have k0: "0 \<le> ?k" using assms by (simp add: pos_imp_zdiv_nonneg_iff)
  have "float_to_u16 ?q = (if ?k < 65536 then Some (word_of_int ?k) else None)"
    using fl q0 k0 by (simp add: float_to_u16_def ftrunc_def)
  moreover have "count_of n (of_int hz) = map_option (\<lambda>w. w - 1) (float_to_u16 ?q)"
    using assms(1) f1 f2 by (simp add: count_of_def nn h s Let_def)
  ultimately show ?thesis by simp
qed

lemma spec_count_whole:
  fixes n hz :: int
  assumes "0 < hz"
  shows "spec_count n (of_int hz) = (2 * n + hz) div (2 * hz) - 1"
  using round_half_up_quotient [OF assms] by (simp add: spec_count_def)

lemma round_half_up_add_half:
  assumes "0 < d"
  shows "round_half_up (x / d) = \<lfloor>(x + d / 2) / d\<rfloor>"
proof -
  have "x / d + 1 / 2 = (x + d / 2) / d" using assms by (simp add: field_simps)
  then show ?thesis by (simp add: round_half_up_def)
qed

lemma round_half_up_nearest:
  "x - 1 / 2 < of_int (round_half_up x)" "of_int (round_half_up x) \<le> x + 1 / 2"
  unfolding round_half_up_def by linarith+

lemma floor_rat_numeral: "\<lfloor>numeral a / numeral b :: rat\<rfloor> = numeral a div numeral b"
  using floor_divide_of_int_eq [of "numeral a" "numeral b", where ?'a = rat] by simp

lemma roundtrip_bound:
  fixes n hz k :: int
  assumes hz: "0 < hz" and k2: "2 \<le> k"
    and lo: "(2 * k - 1) * hz \<le> 2 * n" and hi: "2 * n < (2 * k + 1) * hz"
  shows "\<bar>count_frequency n (k - 1) - of_int hz\<bar> \<le> freq_step n (k - 2) / 2"
proof -
  have n0: "0 < n"
  proof -
    have "0 < (2 * k - 1) * hz" using hz k2 by simp
    with lo show ?thesis by simp
  qed
  have kr: "(0::rat) < of_int k" "(0::rat) < of_int k - 1" using k2 by simp_all
  have cf: "count_frequency n (k - 1) = of_int n / of_int k" by (simp add: count_frequency_def)
  have st: "freq_step n (k - 2) = of_int n / (of_int k * (of_int k - 1))"
    using kr by (simp add: freq_step_def count_frequency_def field_simps)
  \<comment> \<open>the upper side\<close>
  have "(2 * k - 3) * (2 * n) \<le> (2 * k - 3) * ((2 * k + 1) * hz)"
    using hi k2 by (intro mult_left_mono) simp_all
  also have "\<dots> = (4 * k * (k - 1) - 3) * hz" by (simp add: algebra_simps)
  also have "\<dots> \<le> 4 * k * (k - 1) * hz" using hz by (simp add: algebra_simps)
  finally have u: "(2 * k - 3) * n \<le> 2 * k * (k - 1) * hz" by (simp add: algebra_simps)
  from u have "(of_int ((2 * k - 3) * n) :: rat) \<le> of_int (2 * k * (k - 1) * hz)"
    by (simp only: of_int_le_iff)
  then have "((2 * of_int k - 3) * of_int n - 2 * of_int k * (of_int k - 1) * of_int hz :: rat) \<le> 0"
    by simp
  moreover have "(0::rat) < 2 * of_int k * (of_int k - 1)" using kr by simp
  ultimately have "((2 * of_int k - 3) * of_int n - 2 * of_int k * (of_int k - 1) * of_int hz :: rat)
                     / (2 * of_int k * (of_int k - 1)) \<le> 0"
    by (rule divide_nonpos_pos)
  moreover have "of_int n / of_int k - of_int hz - of_int n / (of_int k * (of_int k - 1)) / (2::rat)
      = ((2 * of_int k - 3) * of_int n - 2 * of_int k * (of_int k - 1) * of_int hz)
          / (2 * of_int k * (of_int k - 1))"
    using kr by (simp add: field_simps)
  ultimately have U: "of_int n / of_int k - of_int hz
                       \<le> of_int n / (of_int k * (of_int k - 1)) / (2::rat)"
    by simp
  \<comment> \<open>the lower side\<close>
  have "(2 * k - 1) * ((2 * k - 1) * hz) \<le> (2 * k - 1) * (2 * n)"
    using lo k2 by (intro mult_left_mono) simp_all
  moreover have "4 * k * (k - 1) * hz \<le> (2 * k - 1) * ((2 * k - 1) * hz)"
    using hz by (simp add: algebra_simps)
  ultimately have l: "2 * k * (k - 1) * hz \<le> (2 * k - 1) * n" by (simp add: algebra_simps)
  from l have "(of_int (2 * k * (k - 1) * hz) :: rat) \<le> of_int ((2 * k - 1) * n)"
    by (simp only: of_int_le_iff)
  then have "(2 * of_int k * (of_int k - 1) * of_int hz - (2 * of_int k - 1) * of_int n :: rat) \<le> 0"
    by simp
  moreover have "(0::rat) < 2 * of_int k * (of_int k - 1)" using kr by simp
  ultimately have "(2 * of_int k * (of_int k - 1) * of_int hz - (2 * of_int k - 1) * of_int n :: rat)
                     / (2 * of_int k * (of_int k - 1)) \<le> 0"
    by (rule divide_nonpos_pos)
  moreover have "of_int hz - of_int n / of_int k - of_int n / (of_int k * (of_int k - 1)) / (2::rat)
      = (2 * of_int k * (of_int k - 1) * of_int hz - (2 * of_int k - 1) * of_int n)
          / (2 * of_int k * (of_int k - 1))"
    using kr by (simp add: field_simps)
  ultimately have L: "of_int hz - of_int n / of_int k
                       \<le> of_int n / (of_int k * (of_int k - 1)) / (2::rat)"
    by simp
  from U L show ?thesis by (simp only: cf st abs_le_iff) simp
qed



lemma count_of_whole_roundtrip:
  fixes n hz :: int
  assumes c: "count_of n (of_int hz) = Some c"
    and "0 \<le> n" and "0 < hz" and "2 * n + hz \<le> 2 ^ 23" and "hz \<le> 2 * n" and "1 \<le> uint c"
  shows "\<bar>count_frequency n (uint c) - of_int hz\<bar> \<le> freq_step n (uint c - 1) / 2"
proof -
  define k where "k = (2 * n + hz) div (2 * hz)"
  have D: "0 < 2 * hz" using assms(3) by simp
  from count_of_whole [OF assms(3) assms(2) assms(4)] c
  have k_hi: "k < 65536" and cw: "c = word_of_int (k - 1)"
    by (auto simp: k_def split: if_splits)
  have "0 < k" unfolding k_def using D assms(5) by (simp add: pos_imp_zdiv_pos_iff)
  then have k1: "1 \<le> k" by simp
  have "uint (word_of_int (k - 1) :: 16 word) = (k - 1) mod 2 ^ LENGTH(16)"
    by (rule uint_word_of_int)
  also have "\<dots> = k - 1" using k1 k_hi by simp
  finally have uc: "uint c = k - 1" by (simp only: cw)
  with assms(6) have k2: "2 \<le> k" by simp
  have md: "2 * n + hz = k * (2 * hz) + (2 * n + hz) mod (2 * hz)"
    unfolding k_def by (rule div_mult_mod_eq [symmetric])
  have "0 \<le> (2 * n + hz) mod (2 * hz)" using D by simp
  with md have lo: "(2 * k - 1) * hz \<le> 2 * n" by (simp add: algebra_simps)
  have "(2 * n + hz) mod (2 * hz) < 2 * hz" using D by simp
  with md have hi: "2 * n < (2 * k + 1) * hz" by (simp add: algebra_simps)
  from roundtrip_bound [OF assms(3) k2 lo hi] show ?thesis
    by (simp add: uc)
qed


section \<open>The conversion is antitone on single-precision arguments\<close>

lemma powi_split: "(2::rat) powi a = 2 powi b * 2 powi (a - b)"
  by (simp flip: power_int_add)

lemma rne_floor_cases: "rne z = \<lfloor>z\<rfloor> \<or> rne z = \<lfloor>z\<rfloor> + 1"
  by (simp add: rne_def Let_def)

lemma rne_error: "\<bar>of_int (rne z) - z\<bar> \<le> 1 / 2"
proof -
  have a: "of_int \<lfloor>z\<rfloor> \<le> z" and b: "z < of_int \<lfloor>z\<rfloor> + 1" by linarith+
  show ?thesis
  proof (cases "z - of_int \<lfloor>z\<rfloor> < 1 / 2")
    case True
    then have "rne z = \<lfloor>z\<rfloor>" by (simp add: rne_def Let_def)
    with True a show ?thesis by simp
  next
    case False
    note nlt = this
    show ?thesis
    proof (cases "1 / 2 < z - of_int \<lfloor>z\<rfloor>")
      case True
      with nlt have "rne z = \<lfloor>z\<rfloor> + 1" by (simp add: rne_def Let_def)
      with True b show ?thesis by simp
    next
      case False
      with nlt have eq: "z - of_int \<lfloor>z\<rfloor> = 1 / 2" by simp
      from rne_floor_cases [of z] show ?thesis
      proof
        assume "rne z = \<lfloor>z\<rfloor>"
        with eq show ?thesis by simp
      next
        assume "rne z = \<lfloor>z\<rfloor> + 1"
        with eq show ?thesis by simp
      qed
    qed
  qed
qed

lemma rne_mono: "z \<le> z' \<Longrightarrow> rne z \<le> rne z'"
proof -
  assume le: "z \<le> z'"
  then have fle: "\<lfloor>z\<rfloor> \<le> \<lfloor>z'\<rfloor>" by (rule floor_mono)
  show ?thesis
  proof (cases "\<lfloor>z\<rfloor> = \<lfloor>z'\<rfloor>")
    case True
    with le have "z - of_int \<lfloor>z\<rfloor> \<le> z' - of_int \<lfloor>z'\<rfloor>" by simp
    with True show ?thesis by (auto simp: rne_def Let_def)
  next
    case False
    with fle have "\<lfloor>z\<rfloor> + 1 \<le> \<lfloor>z'\<rfloor>" by simp
    moreover have "rne z \<le> \<lfloor>z\<rfloor> + 1" using rne_floor_cases [of z] by auto
    moreover have "\<lfloor>z'\<rfloor> \<le> rne z'" using rne_floor_cases [of z'] by auto
    ultimately show ?thesis by simp
  qed
qed

lemma rne_ge_half_even:
  assumes "of_int a - 1 / 2 \<le> z" and "even a"
  shows "a \<le> rne z"
proof (cases "of_int a \<le> z")
  case True
  then show ?thesis by (rule rne_ge)
next
  case False
  then have lt: "z < of_int a" by simp
  have "of_int (a - 1) \<le> z" using assms(1) by simp
  then have "a - 1 \<le> \<lfloor>z\<rfloor>" by (simp only: le_floor_iff)
  moreover have "\<lfloor>z\<rfloor> < a" using lt by (simp only: floor_less_iff)
  ultimately have f: "\<lfloor>z\<rfloor> = a - 1" by simp
  then have odd: "odd \<lfloor>z\<rfloor>" using assms(2) by simp
  have d: "1 / 2 \<le> z - of_int \<lfloor>z\<rfloor>" using assms(1) f by simp
  from d odd have "rne z = \<lfloor>z\<rfloor> + 1" by (auto simp: rne_def Let_def)
  with f show ?thesis by simp
qed

lemma rne_less_half:
  assumes "z < of_int a - 1 / 2"
  shows "rne z < a"
proof -
  have "z < of_int a" using assms by simp
  then have f: "\<lfloor>z\<rfloor> < a" by (simp only: floor_less_iff)
  show ?thesis
  proof (cases "\<lfloor>z\<rfloor> = a - 1")
    case True
    with assms have "z - of_int \<lfloor>z\<rfloor> < 1 / 2" by simp
    then have "rne z = \<lfloor>z\<rfloor>" by (simp add: rne_def Let_def)
    with f show ?thesis by simp
  next
    case False
    with f have "\<lfloor>z\<rfloor> + 1 < a" by simp
    moreover have "rne z \<le> \<lfloor>z\<rfloor> + 1" using rne_floor_cases [of z] by auto
    ultimately show ?thesis by simp
  qed
qed

lemma ilog2_mono:
  assumes "0 < x" and "x \<le> y"
  shows "ilog2 x \<le> ilog2 y"
proof -
  have y: "0 < y" using assms by simp
  have "(2::rat) powi ilog2 x \<le> x" using assms(1) by (rule ilog2_bounds(1))
  also note assms(2)
  also have "y < 2 powi (ilog2 y + 1)" using y by (rule ilog2_bounds(2))
  finally have "ilog2 x < ilog2 y + 1"
    by (metis not_less power_int_increasing one_le_numeral)
  then show ?thesis by simp
qed

lemma ulp_exp_pos: "0 < x \<Longrightarrow> ulp_exp x = max (ilog2 x - 23) (- 149)"
  by (simp add: ulp_exp_def)

lemma fl32_pow2:
  assumes "- 149 \<le> e"
  shows "fl32 (2 powi e) = 2 powi e"
proof -
  have "ilog2 (2 powi e) = e" by (rule ilog2_unique) (simp_all add: power_int_add)
  then have "ulp_exp (2 powi e) \<le> e" using assms by (simp add: ulp_exp_def)
  moreover have "(2::rat) powi e = of_int 1 * 2 powi e" by simp
  ultimately show ?thesis by (rule fl32_dyadic [rotated])
qed

lemma fl32_mono_pos:
  assumes "0 < x" and "x \<le> y"
  shows "fl32 x \<le> fl32 y"
proof -
  have y: "0 < y" using assms by simp
  have il: "ilog2 x \<le> ilog2 y" using assms by (rule ilog2_mono)
  then have ul: "ulp_exp x \<le> ulp_exp y" using assms(1) y by (simp add: ulp_exp_pos)
  show ?thesis
  proof (cases "ulp_exp x = ulp_exp y")
    case True
    let ?u = "(2::rat) powi ulp_exp y"
    have "x / ?u \<le> y / ?u" using assms(2) by (simp add: divide_right_mono)
    then have "rne (x / ?u) \<le> rne (y / ?u)" by (rule rne_mono)
    then have "(of_int (rne (x / ?u)) :: rat) \<le> of_int (rne (y / ?u))" by (simp only: of_int_le_iff)
    then have "of_int (rne (x / ?u)) * ?u \<le> of_int (rne (y / ?u)) * ?u"
      by (simp only: mult_le_cancel_right_pos zero_less_power_int zero_less_numeral)
    then show ?thesis using assms(1) y True by (simp add: fl32_def)
  next
    case False
    with ul have lt: "ulp_exp x < ulp_exp y" by simp
    let ?e = "ilog2 y"
    let ?B = "(2::rat) powi ?e"
    from lt have uy: "ulp_exp y = ?e - 23" and ilt: "ilog2 x < ?e"
      using assms(1) y by (auto simp: ulp_exp_pos)
    have "x < 2 powi (ilog2 x + 1)" using assms(1) by (rule ilog2_bounds(2))
    also have "\<dots> \<le> ?B" using ilt by (intro power_int_increasing) simp_all
    finally have xB: "x \<le> ?B" by simp
    have By: "?B \<le> y" using y by (rule ilog2_bounds(1))
    define m where "m = nat (?e - ulp_exp x)"
    have "ulp_exp x \<le> ?e" using lt uy by simp
    then have "?e = ulp_exp x + int m" by (simp add: m_def)
    then have "?B = 2 powi ulp_exp x * 2 ^ m" by (simp add: power_int_add)
    then have Bx: "of_int (2 ^ m) * 2 powi ulp_exp x = ?B" by simp
    have "fl32 x \<le> of_int (2 ^ m) * 2 powi ulp_exp x"
      by (rule fl32_le_grid) (simp only: Bx xB)
    then have 1: "fl32 x \<le> ?B" by (simp only: Bx)
    have "?e = ulp_exp y + 23" using uy by simp
    then have "?B = 2 powi ulp_exp y * 2 ^ 23" by (simp add: power_int_add)
    then have Byy: "of_int (2 ^ 23) * 2 powi ulp_exp y = ?B" by simp
    have "of_int (2 ^ 23) * 2 powi ulp_exp y \<le> fl32 y"
      by (rule fl32_ge_grid) (simp only: Byy By)
    then have 2: "?B \<le> fl32 y" by (simp only: Byy)
    from 1 2 show ?thesis by simp
  qed
qed

lemma fl32_float_grid:
  assumes "fl32 x = x"
  shows "\<exists>m. x = of_int m * 2 powi ulp_exp x"
proof (cases "x = 0")
  case True
  then have "x = of_int 0 * 2 powi ulp_exp x" by simp
  then show ?thesis ..
next
  case False
  then have "fl32 x = of_int (rne (x / 2 powi ulp_exp x)) * 2 powi ulp_exp x" by (simp add: fl32_def)
  with assms have "x = of_int (rne (x / 2 powi ulp_exp x)) * 2 powi ulp_exp x" by simp
  then show ?thesis ..
qed

lemma fl32_binade:
  assumes "2 powi e \<le> x" and "x \<le> 2 powi (e + 1)" and "- 126 \<le> e"
  shows "\<exists>a. fl32 x = of_int a * 2 powi (e - 23)" and "\<bar>fl32 x - x\<bar> \<le> 2 powi (e - 23) / 2"
proof -
  have x: "0 < x" using assms(1) by (rule less_le_trans [OF zero_less_power_int, rotated]) simp
  have "(\<exists>a. fl32 x = of_int a * 2 powi (e - 23)) \<and> \<bar>fl32 x - x\<bar> \<le> 2 powi (e - 23) / 2"
  proof (cases "x = 2 powi (e + 1)")
    case True
    have "fl32 x = x" unfolding True using assms(3) by (intro fl32_pow2) simp
    moreover have "(2::rat) powi (e + 1) = of_int (2 ^ 24) * 2 powi (e - 23)"
      using powi_split [of "e + 1" "e - 23"] by simp
    ultimately have "fl32 x = of_int (2 ^ 24) * 2 powi (e - 23)" using True by simp
    then have "\<exists>a. fl32 x = of_int a * 2 powi (e - 23)" ..
    then show ?thesis using \<open>fl32 x = x\<close> by simp
  next
    case False
    with assms(2) have "x < 2 powi (e + 1)" by simp
    with assms(1) x have "\<bar>x\<bar> < 2 powi (e + 1)" "2 powi e \<le> \<bar>x\<bar>" by simp_all
    then have ue: "ulp_exp x = e - 23" using assms(3) by (intro ulp_exp_eq) simp_all
    let ?u = "(2::rat) powi (e - 23)"
    have u: "0 < ?u" by simp
    have f: "fl32 x = of_int (rne (x / ?u)) * ?u" using x ue by (simp add: fl32_def)
    have "\<bar>of_int (rne (x / ?u)) - x / ?u\<bar> * ?u \<le> 1 / 2 * ?u"
      using rne_error [of "x / ?u"] u by (intro mult_right_mono) simp_all
    moreover have "\<bar>of_int (rne (x / ?u)) - x / ?u\<bar> * ?u = \<bar>of_int (rne (x / ?u)) * ?u - x\<bar>"
    proof -
      have "\<bar>of_int (rne (x / ?u)) - x / ?u\<bar> * ?u = \<bar>(of_int (rne (x / ?u)) - x / ?u) * ?u\<bar>"
        using u by (simp add: abs_mult)
      also have "(of_int (rne (x / ?u)) - x / ?u) * ?u = of_int (rne (x / ?u)) * ?u - x"
        using u by (simp add: field_simps)
      finally show ?thesis .
    qed
    ultimately have "\<bar>fl32 x - x\<bar> \<le> ?u / 2" by (simp add: f)
    moreover from f have "\<exists>a. fl32 x = of_int a * ?u" ..
    ultimately show ?thesis by simp
  qed
  then show "\<exists>a. fl32 x = of_int a * 2 powi (e - 23)" and "\<bar>fl32 x - x\<bar> \<le> 2 powi (e - 23) / 2"
    by simp_all
qed

lemma powi_add2: "(2::rat) powi a * 2 powi b = 2 powi (a + b)"
  by (simp add: power_int_add)

lemma powi_less_cancel: "(2::rat) powi a < 2 powi b \<Longrightarrow> a < b"
  by (metis not_less power_int_increasing one_le_numeral)

lemma powi_le_mono: "a \<le> b \<Longrightarrow> (2::rat) powi a \<le> 2 powi b"
  by (rule power_int_increasing) simp_all

lemma powi_less_mono: "a < b \<Longrightarrow> (2::rat) powi a < 2 powi b"
  by (rule power_int_strict_increasing) simp_all

lemma fl32_int_threshold:
  fixes k :: int
  assumes j: "0 \<le> j" "j \<le> 22"
    and lo: "(2::rat) powi j < of_int k" and hi: "of_int k \<le> (2::rat) powi (j + 1)"
    and y: "0 < y"
  shows "of_int k \<le> fl32 y \<longleftrightarrow> of_int k - 2 powi (j - 24) \<le> y"
proof -
  define U :: rat where "U = 2 powi (j - 23)"
  define K where "K = k * 2 ^ nat (23 - j)"
  have U: "0 < U" by (simp add: U_def)
  have "int (nat (23 - j)) = 23 - j" using j by simp
  then have "(2::rat) ^ nat (23 - j) = 2 powi (23 - j)"
    by (metis power_int_of_nat)
  then have "(2::rat) ^ nat (23 - j) * U = 2 powi ((23 - j) + (j - 23))"
    unfolding U_def by (simp only: powi_add2)
  then have pU: "(2::rat) ^ nat (23 - j) * U = 1" by simp
  have KU: "of_int K * U = of_int k"
  proof -
    have "of_int K * U = of_int k * ((2::rat) ^ nat (23 - j) * U)" by (simp add: K_def)
    then show ?thesis by (simp only: pU mult_1_right)
  qed
  have "0 < nat (23 - j)" using j by simp
  then have evK: "even K" by (simp add: K_def)
  have half: "(2::rat) powi (j - 24) = U / 2"
    using powi_split [of "j - 23" "j - 24"] by (simp add: U_def)
  have J: "(2::rat) powi j = of_int (2 ^ 23) * U"
    using powi_split [of j "j - 23"] by (simp add: U_def)
  have J1: "(2::rat) powi (j + 1) = of_int (2 ^ 24) * U"
    using powi_split [of "j + 1" "j - 23"] by (simp add: U_def)
  have "of_int (2 ^ 23) * U < of_int K * U" using lo by (simp only: J KU)
  then have "(of_int (2 ^ 23) :: rat) < of_int K" using U by (simp only: mult_less_cancel_right_pos)
  then have "2 ^ 23 < K" by (simp only: of_int_less_iff)
  then have "2 ^ 23 + 1 \<le> K" by simp
  then have "(of_int (2 ^ 23 + 1) :: rat) \<le> of_int K" by (simp only: of_int_le_iff)
  then have "of_int (2 ^ 23 + 1) * U \<le> of_int K * U" using U by (simp only: mult_le_cancel_right_pos)
  then have "of_int (2 ^ 23 + 1) * U \<le> of_int k" by (simp only: KU)
  moreover have "of_int (2 ^ 23 + 1) * U = 2 powi j + U" by (simp add: J algebra_simps)
  ultimately have kJ: "2 powi j + U \<le> of_int k" by (simp only:)
  have kpos: "(0::rat) < of_int k" using lo by (rule less_trans [OF zero_less_power_int, rotated]) simp
  have flk: "fl32 (of_int k) = of_int k"
  proof -
    have "(2::rat) powi 0 \<le> 2 powi j" using j by (intro powi_le_mono) simp
    with lo have a: "2 powi 0 \<le> \<bar>of_int k :: rat\<bar>" using kpos by simp
    have "(2::rat) powi (j + 1) \<le> 2 powi 23" using j by (intro powi_le_mono) simp
    also have "(2::rat) powi 23 < 2 powi 24" by simp
    finally have b: "\<bar>of_int k :: rat\<bar> < 2 powi 24" using hi kpos by simp
    from ulp_exp_range(2) [OF a b] have "ulp_exp (of_int k) \<le> 0" by simp
    moreover have "(of_int k :: rat) = of_int k * 2 powi 0" by simp
    ultimately show ?thesis by (rule fl32_dyadic [rotated])
  qed
  show ?thesis
  proof
    assume ge: "of_int k \<le> fl32 y"
    show "of_int k - 2 powi (j - 24) \<le> y"
    proof (rule ccontr)
      assume "\<not> ?thesis"
      then have lt: "y < of_int k - U / 2" by (simp add: half)
      have "fl32 y < of_int k"
      proof (cases "2 powi j \<le> y")
        case True
        have "y < 2 powi (j + 1)" using lt hi U by simp
        with True y have "ulp_exp y = j - 23" using j by (intro ulp_exp_eq) simp_all
        then have f: "fl32 y = of_int (rne (y / U)) * U" using y by (simp add: fl32_def U_def)
        have "y / U < (of_int k - U / 2) / U" using lt U by (simp only: divide_strict_right_mono)
        also have "(of_int k - U / 2) / U = of_int K - 1 / 2"
          using U KU by (simp add: field_simps)
        finally have "rne (y / U) < K" by (rule rne_less_half)
        then have "(of_int (rne (y / U)) :: rat) < of_int K" by (simp only: of_int_less_iff)
        then have "of_int (rne (y / U)) * U < of_int K * U"
          using U by (simp only: mult_less_cancel_right_pos)
        then show ?thesis by (simp only: f KU)
      next
        case False
        then have "y \<le> 2 powi j" by simp
        with y have "fl32 y \<le> fl32 (2 powi j)" by (rule fl32_mono_pos)
        also have "fl32 (2 powi j) = 2 powi j" using j by (intro fl32_pow2) simp
        finally show ?thesis using lo by simp
      qed
      with ge show False by simp
    qed
  next
    assume ge: "of_int k - 2 powi (j - 24) \<le> y"
    show "of_int k \<le> fl32 y"
    proof (cases "of_int k \<le> y")
      case True
      with kpos have "fl32 (of_int k) \<le> fl32 y" by (rule fl32_mono_pos)
      then show ?thesis by (simp only: flk)
    next
      case False
      then have yk: "y < of_int k" by simp
      have "2 powi j \<le> of_int k - U / 2" using kJ U by simp
      with ge have "2 powi j \<le> y" by (simp add: half)
      moreover have "y < 2 powi (j + 1)" using yk hi by simp
      ultimately have "ulp_exp y = j - 23" using y j by (intro ulp_exp_eq) simp_all
      then have f: "fl32 y = of_int (rne (y / U)) * U" using y by (simp add: fl32_def U_def)
      have "(of_int k - U / 2) / U \<le> y / U" using ge U by (simp add: half divide_right_mono)
      moreover have "(of_int k - U / 2) / U = of_int K - 1 / 2"
        using U KU by (simp add: field_simps)
      ultimately have "of_int K - 1 / 2 \<le> y / U" by simp
      then have "K \<le> rne (y / U)" using evK by (rule rne_ge_half_even)
      then have "(of_int K :: rat) \<le> of_int (rne (y / U))" by (simp only: of_int_le_iff)
      then have "of_int K * U \<le> of_int (rne (y / U)) * U"
        using U by (simp only: mult_le_cancel_right_pos)
      then show ?thesis by (simp only: f KU)
    qed
  qed
qed

lemma sum_gt_of_prod:
  fixes a b B :: rat
  assumes "0 \<le> a" and "0 \<le> b" and "0 \<le> B" and "B * B < 4 * (a * b)"
  shows "B < a + b"
proof (rule ccontr)
  assume "\<not> ?thesis"
  then have le: "a + b \<le> B" by simp
  have "0 \<le> a + b" using assms by simp
  with le have "(a + b) * (a + b) \<le> B * B" by (intro mult_mono) simp_all
  moreover have "0 \<le> (a - b) * (a - b)" by simp
  moreover have "(a + b) * (a + b) = (a - b) * (a - b) + 4 * (a * b)" by (simp add: algebra_simps)
  ultimately show False using assms(4) by simp
qed

lemma grid_step:
  fixes a1 a2 :: int and u c hz1 hz2 N A1 A2 :: rat
  assumes u: "0 < u" and c: "3 / 2 \<le> c"
    and A1: "A1 = of_int a1 * u" and A2: "A2 = of_int a2 * u"
    and e1: "\<bar>A1 - (N + hz1 / 2)\<bar> \<le> u / 2" and e2: "\<bar>A2 - (N + hz2 / 2)\<bar> \<le> u / 2"
    and i: "A1 < c * hz1" and ii: "c * hz2 \<le> A2" and lt: "hz1 < hz2"
  shows "a2 = a1 + 1"
proof -
  have cpos: "0 < c" using c by simp
  have "c * hz1 < c * hz2" using lt cpos by simp
  with i ii have "A1 < A2" by simp
  then have "of_int a1 * u < of_int a2 * u" by (simp only: A1 A2)
  then have "(of_int a1 :: rat) < of_int a2" using u by (simp only: mult_less_cancel_right_pos)
  then have lo: "a1 < a2" by (simp only: of_int_less_iff)
  have hi: "a2 < a1 + 2"
  proof (rule ccontr)
    assume "\<not> a2 < a1 + 2"
    then have "a1 + 2 \<le> a2" by simp
    then have "(of_int (a1 + 2) :: rat) \<le> of_int a2" by (simp only: of_int_le_iff)
    then have "of_int (a1 + 2) * u \<le> of_int a2 * u" using u by (simp only: mult_le_cancel_right_pos)
    moreover have "of_int (a1 + 2) * u = A1 + 2 * u" by (simp add: A1 algebra_simps)
    ultimately have D: "A1 + 2 * u \<le> A2" by (simp only: A2)
    have "- (A1 - (N + hz1 / 2)) \<le> u / 2" using e1 by (rule abs_le_D2)
    moreover have "A2 - (N + hz2 / 2) \<le> u / 2" using e2 by (rule abs_le_D1)
    ultimately have h: "2 * (A2 - A1) - 2 * u \<le> hz2 - hz1" by simp
    have "0 \<le> 2 * (A2 - A1) - 2 * u" using D u by simp
    then have "3 / 2 * (2 * (A2 - A1) - 2 * u) \<le> c * (2 * (A2 - A1) - 2 * u)"
      using c by (intro mult_right_mono)
    also have "\<dots> \<le> c * (hz2 - hz1)" using h cpos by (intro mult_left_mono) simp_all
    also have "\<dots> < A2 - A1" using i ii by (simp add: algebra_simps)
    finally show False using D u by simp
  qed
  from lo hi show ?thesis by simp
qed

lemma odd_between:
  fixes D :: int and t :: rat
  assumes "odd D" and "- 1 < of_int D - t" and "of_int D - t \<le> 1" and "0 < t" and "t < 2"
  shows "D = 1"
proof -
  have "(- 1 :: rat) < of_int D" using assms(2,4) by simp
  then have "(of_int (- 1) :: rat) < of_int D" by simp
  then have a: "- 1 < D" by (simp only: of_int_less_iff)
  have "(of_int D :: rat) < 3" using assms(3,5) by simp
  then have "(of_int D :: rat) < of_int 3" by simp
  then have b: "D < 3" by (simp only: of_int_less_iff)
  from a b have "D = 0 \<or> D = 1 \<or> D = 2" by auto
  with assms(1) show ?thesis by auto
qed

lemma threshold_crossing_impossible:
  fixes k j e p a ma mb X G :: int and x y N :: rat
  defines "u \<equiv> (2::rat) powi (e - 23)"
    and "s \<equiv> (2::rat) powi (p - 23)"
    and "c \<equiv> of_int k - (2::rat) powi (j - 24)"
  assumes j: "0 \<le> j" "j \<le> 22"
    and kJ: "(2::rat) powi j < of_int k" "of_int k \<le> (2::rat) powi (j + 1)"
    and i: "of_int a * u < c * x"
    and ii: "c * y \<le> of_int (a + 1) * u"
    and e1: "\<bar>of_int a * u - (N + x / 2)\<bar> \<le> u / 2"
    and e2: "\<bar>of_int (a + 1) * u - (N + y / 2)\<bar> \<le> u / 2"
    and A: "2 powi e \<le> of_int a * u" "of_int (a + 1) * u \<le> 2 powi (e + 1)"
    and P: "2 powi p \<le> x" "x < 2 powi (p + 1)"
    and g1: "x = of_int ma * s" and g2: "y = of_int mb * s" and gu: "u = of_int G * s"
    and X: "2 * N = of_int X * u" "even X"
    and lt: "x < y"
  shows False
proof -
  define J :: rat where "J = 2 powi j"
  define Pp :: rat where "Pp = 2 powi p"
  define E :: rat where "E = 2 powi e"
  define h :: rat where "h = 2 powi (j - 24)"
  have Jpos: "0 < J" and Ppos: "0 < Pp" and Epos: "0 < E" and hpos: "0 < h"
    and upos: "0 < u" and spos: "0 < s"
    by (simp_all add: J_def Pp_def E_def h_def u_def s_def)
  have hJ: "h = J / 2 ^ 24" using powi_split [of j "j - 24"] by (simp add: h_def J_def)
  have sP: "s = Pp / 2 ^ 23" using powi_split [of p "p - 23"] by (simp add: s_def Pp_def)
  have uE: "u = E / 2 ^ 23" using powi_split [of e "e - 23"] by (simp add: u_def E_def)
  have J1: "(2::rat) powi (j + 1) = 2 * J" using powi_split [of "j + 1" j] by (simp add: J_def)
  have P1: "(2::rat) powi (p + 1) = 2 * Pp" using powi_split [of "p + 1" p] by (simp add: Pp_def)
  have E1: "(2::rat) powi (e + 1) = 2 * E" using powi_split [of "e + 1" e] by (simp add: E_def)
  have c: "c = of_int k - h" by (simp add: c_def h_def)
  have kpos: "(0::rat) < of_int k" using Jpos kJ(1) unfolding J_def by (rule less_trans)
  have hz1pos: "0 < x" using Ppos P(1) unfolding Pp_def by (rule less_le_trans)
  have hz2pos: "0 < y" using hz1pos lt by simp
  \<comment> \<open>\<open>k\<close> is an integer above \<open>J\<close>, so \<open>c\<close> is above \<open>J\<close> as well\<close>
  have Jint: "J = of_int (2 ^ nat j)"
  proof -
    have "int (nat j) = j" using j by simp
    then have "(2::rat) powi j = 2 ^ nat j" by (metis power_int_of_nat)
    then show ?thesis by (simp add: J_def)
  qed
  have "(of_int (2 ^ nat j) :: rat) < of_int k" using kJ(1) by (simp only: J_def [symmetric] Jint)
  then have "2 ^ nat j < k" by (simp only: of_int_less_iff)
  then have "2 ^ nat j + 1 \<le> k" by simp
  then have "(of_int (2 ^ nat j + 1) :: rat) \<le> of_int k" by (simp only: of_int_le_iff)
  then have kJ1: "J + 1 \<le> of_int k" by (simp add: Jint)
  have "(2::rat) powi j \<le> 2 powi 22" using j by (intro powi_le_mono)
  then have "J \<le> 2 ^ 22" by (simp add: J_def)
  then have h1: "h < 1" by (simp add: hJ)
  have cJ: "J < c" using kJ1 h1 by (simp add: c)
  have cpos: "0 < c" using cJ Jpos by simp
  have ck: "c < of_int k" using hpos by (simp add: c)
  have k2J: "of_int k \<le> 2 * J" using kJ(2) by (simp only: J1)
  \<comment> \<open>the tie point between the two neighbouring values of the rounded sum\<close>
  define d where "d = 2 * a + 1 - X"
  define d' :: rat where "d' = of_int d * u"
  have "d' = 2 * (of_int a * u) + u - of_int X * u" by (simp add: d'_def d_def algebra_simps)
  then have d'eq: "d' = 2 * (of_int a * u) + u - 2 * N" by (simp only: X(1) [symmetric])
  have A2: "of_int (a + 1) * u = of_int a * u + u" by (simp add: algebra_simps)
  have "- (of_int a * u - (N + x / 2)) \<le> u / 2" using e1 by (rule abs_le_D2)
  then have hz1d: "x \<le> d'" by (simp add: d'eq)
  have "of_int (a + 1) * u - (N + y / 2) \<le> u / 2" using e2 by (rule abs_le_D1)
  then have "of_int a * u + u - (N + y / 2) \<le> u / 2" by (simp only: A2)
  then have dhz2: "d' \<le> y" by (simp add: d'eq)
  have d'pos: "0 < d'" using hz1pos hz1d by simp
  then have "0 < of_int d * u" by (simp only: d'_def)
  then have drpos: "(0::rat) < of_int d" using upos by (simp add: zero_less_mult_iff)
  have oddd: "odd d" using X(2) by (simp add: d_def)
  \<comment> \<open>both bounds at the tie point\<close>
  have "c * d' \<le> c * y" using dhz2 cpos by simp
  with ii have cd_hi: "c * d' \<le> of_int (a + 1) * u" by simp
  have "c * x \<le> c * d'" using hz1d cpos by simp
  with i have cd_lo: "of_int a * u < c * d'" by simp
  have "c * of_int d * u \<le> of_int (a + 1) * u" using cd_hi by (simp add: d'_def mult.assoc)
  then have cdh: "c * of_int d \<le> of_int (a + 1)" using upos by (simp only: mult_le_cancel_right_pos)
  have "of_int a * u < c * of_int d * u" using cd_lo by (simp add: d'_def mult.assoc)
  then have cdl: "of_int a < c * of_int d" using upos by (simp only: mult_less_cancel_right_pos)
  have a1d: "(2 * of_int a :: rat) = of_int d - 1 + of_int X" by (simp add: d_def)
  define D where "D = (2 * k - 1) * d - X"
  define t :: rat where "t = 2 * h * of_int d"
  have Dt: "of_int D - t = 2 * (c * of_int d) - of_int d - of_int X"
    by (simp add: D_def t_def c algebra_simps)
  have Dhi: "of_int D - t \<le> 1" using cdh a1d by (simp add: Dt)
  have Dlo: "- 1 < of_int D - t" using cdl a1d by (simp add: Dt)
  have tpos: "0 < t" using hpos drpos by (simp add: t_def)
  have "J * d' < c * d'" using cJ d'pos by simp
  also have "\<dots> \<le> 2 * E" using cd_hi A(2) by (simp only: E1)
  finally have "J * d' / 2 ^ 24 < 2 * E / 2 ^ 24" by (simp only: divide_strict_right_mono zero_less_power zero_less_numeral)
  then have "h * d' < u" by (simp add: hJ uE)
  then have "h * of_int d * u < 1 * u" by (simp add: d'_def mult.assoc)
  then have "h * of_int d < 1" using upos by (simp only: mult_less_cancel_right_pos)
  then have tlt: "t < 2" by (simp add: t_def)
  have oddD: "odd D" using oddd X(2) by (simp add: D_def)
  have D1: "D = 1" using oddD Dlo Dhi tpos tlt by (rule odd_between)
  then have "2 * (k * d) = 2 * (a + 1)" by (simp add: D_def d_def algebra_simps)
  then have "k * d = a + 1" by simp
  then have "(of_int (k * d) :: rat) = of_int (a + 1)" by (simp only:)
  then have kd: "of_int k * d' = of_int (a + 1) * u" by (simp add: d'_def)
  \<comment> \<open>consequences for the two frequencies\<close>
  have star: "of_int k * (d' - x) + h * x < u"
  proof -
    have "of_int k * d' = of_int a * u + u" using kd by (simp only: A2)
    with i have "of_int k * d' - u < c * x" by simp
    then show ?thesis by (simp add: c algebra_simps)
  qed
  have sstar: "c * y \<le> of_int k * d'" using ii by (simp only: kd)
  have khz1: "E < of_int k * x"
  proof -
    have "E \<le> of_int a * u" using A(1) by (simp only: E_def)
    also note i
    also have "c * x < of_int k * x" using ck hz1pos by simp
    finally show ?thesis .
  qed
  \<comment> \<open>the exponents\<close>
  have "of_int k * x < (2 * J) * (2 * Pp)"
    using k2J P(2) kpos hz1pos by (intro mult_le_less_imp_less) (simp_all add: P1)
  with khz1 have "E < 4 * (J * Pp)" by simp
  moreover have "4 * (J * Pp) = 2 powi (j + p + 2)"
    by (simp add: J_def Pp_def power_int_add)
  ultimately have "(2::rat) powi e < 2 powi (j + p + 2)" by (simp only: E_def)
  then have "e < j + p + 2" by (rule powi_less_cancel)
  then have "e \<le> j + p + 1" by simp
  then have "(2::rat) powi e \<le> 2 powi (j + p + 1)" by (rule powi_le_mono)
  moreover have "(2::rat) powi (j + p + 1) = 2 * (J * Pp)"
    by (simp add: J_def Pp_def power_int_add)
  ultimately have EJP: "E \<le> 2 * (J * Pp)" by (simp only: E_def)
  \<comment> \<open>the lower frequency is the tie point itself\<close>
  have hz1eq: "x = d'"
  proof (rule ccontr)
    assume "x \<noteq> d'"
    with hz1d have "x < d'" by simp
    then have "of_int ma * s < of_int (d * G) * s" by (simp add: g1 [symmetric] d'_def gu mult.assoc)
    then have "(of_int ma :: rat) < of_int (d * G)" using spos by (simp only: mult_less_cancel_right_pos)
    then have "ma < d * G" by (simp only: of_int_less_iff)
    then have "ma + 1 \<le> d * G" by simp
    then have "(of_int (ma + 1) :: rat) \<le> of_int (d * G)" by (simp only: of_int_le_iff)
    then have "of_int (ma + 1) * s \<le> of_int (d * G) * s" using spos by (simp only: mult_le_cancel_right_pos)
    moreover have "of_int (ma + 1) * s = x + s" by (simp add: g1 algebra_simps)
    moreover have "of_int (d * G) * s = d'" by (simp add: d'_def gu mult.assoc)
    ultimately have "s \<le> d' - x" by simp
    then have "of_int k * s \<le> of_int k * (d' - x)" using kpos by simp
    with star have lt_u: "of_int k * s + h * x < u" by simp
    have "u * u < 4 * ((of_int k * s) * (h * x))"
    proof -
      have "E * E < 2 * ((of_int k * x) * (J * Pp))"
      proof -
        have "E * (J * Pp) < (of_int k * x) * (J * Pp)"
          using khz1 Jpos Ppos by simp
        moreover have "E * E \<le> E * (2 * (J * Pp))" using EJP Epos by simp
        ultimately show ?thesis by simp
      qed
      then have "E * E / 2 ^ 46 < 2 * ((of_int k * x) * (J * Pp)) / 2 ^ 46"
        by (simp only: divide_strict_right_mono zero_less_power zero_less_numeral)
      moreover have "u * u = E * E / 2 ^ 46" by (simp add: uE)
      moreover have "4 * ((of_int k * s) * (h * x)) = 2 * ((of_int k * x) * (J * Pp)) / 2 ^ 46"
        by (simp add: sP hJ)
      ultimately show ?thesis by (simp only:)
    qed
    then have "u < of_int k * s + h * x"
      using kpos spos hpos hz1pos upos by (intro sum_gt_of_prod) simp_all
    with lt_u show False by simp
  qed
  \<comment> \<open>and then the upper frequency lies beyond the next power of two\<close>
  have "of_int ma * s < of_int mb * s" using lt by (simp only: g1 g2)
  then have "(of_int ma :: rat) < of_int mb" using spos by (simp only: mult_less_cancel_right_pos)
  then have "ma < mb" by (simp only: of_int_less_iff)
  then have "ma + 1 \<le> mb" by simp
  then have "(of_int (ma + 1) :: rat) \<le> of_int mb" by (simp only: of_int_le_iff)
  then have "of_int (ma + 1) * s \<le> of_int mb * s" using spos by (simp only: mult_le_cancel_right_pos)
  moreover have "of_int (ma + 1) * s = x + s" by (simp add: g1 algebra_simps)
  ultimately have step: "x + s \<le> y" by (simp only: g2)
  have tp: "of_int (2 ^ 24) * s = 2 * Pp" by (simp add: sP)
  have "x < 2 * Pp" using P(2) by (simp only: P1)
  then have "of_int ma * s < of_int (2 ^ 24) * s" by (simp only: tp g1 [symmetric])
  then have "(of_int ma :: rat) < of_int (2 ^ 24)" using spos by (simp only: mult_less_cancel_right_pos)
  then have "ma < 2 ^ 24" by (simp only: of_int_less_iff)
  then have "ma + 1 \<le> 2 ^ 24" by simp
  then have "(of_int (ma + 1) :: rat) \<le> of_int (2 ^ 24)" by (simp only: of_int_le_iff)
  then have "of_int (ma + 1) * s \<le> of_int (2 ^ 24) * s" using spos by (simp only: mult_le_cancel_right_pos)
  moreover have "of_int (ma + 1) * s = x + s" by (simp add: g1 algebra_simps)
  moreover note tp
  ultimately have top: "x + s \<le> 2 * Pp" by simp
  have ss: "c * y \<le> of_int k * x" using sstar by (simp only: hz1eq)
  have ks: "J * s < of_int k * s" using kJ(1) spos by (simp add: J_def)
  have "of_int k * s \<le> of_int k * (y - x)" using step kpos by simp
  also have "\<dots> \<le> h * y" using ss by (simp add: c algebra_simps)
  finally have "J * s < h * y" using ks by simp
  then have "J * (2 * Pp) < J * y" by (simp add: sP hJ)
  then have big: "2 * Pp < y" using Jpos by (simp only: mult_less_cancel_left_pos)
  have "c * (2 * Pp) < c * y" using big cpos by simp
  also note ss
  also have "of_int k * x \<le> of_int k * (2 * Pp - s)" using top kpos by simp
  finally have "of_int k * s < h * (2 * Pp)" by (simp add: c algebra_simps)
  also have "h * (2 * Pp) = J * s" by (simp add: hJ sP)
  finally show False using ks by simp
qed

lemma powi_nat: "0 \<le> a \<Longrightarrow> (2::rat) powi a = of_int (2 ^ nat a)"
proof -
  assume "0 \<le> a"
  then have "int (nat a) = a" by simp
  then have "(2::rat) powi a = 2 ^ nat a" by (metis power_int_of_nat)
  then show ?thesis by simp
qed

lemma fquot_antimono_binade:
  fixes n e :: int and hz1 hz2 :: rat
  assumes f1: "fl32 hz1 = hz1" and f2: "fl32 hz2 = hz2"
    and small: "2 powi (- 100) \<le> hz1" and lt: "hz1 < hz2" and le2n: "hz2 \<le> 2 * of_int n"
    and e: "0 \<le> e" "e \<le> 23"
    and lo: "2 powi e \<le> of_int n + hz1 / 2" and hi: "of_int n + hz2 / 2 \<le> 2 powi (e + 1)"
    and T1: "\<lfloor>fquot n hz1\<rfloor> < 65536"
  shows "\<lfloor>fquot n hz2\<rfloor> \<le> \<lfloor>fquot n hz1\<rfloor>"
proof (rule ccontr)
  assume "\<not> ?thesis"
  then have T12: "\<lfloor>fquot n hz1\<rfloor> < \<lfloor>fquot n hz2\<rfloor>" by simp
  define N :: rat where "N = of_int n"
  define S1 where "S1 = N + hz1 / 2"
  define S2 where "S2 = N + hz2 / 2"
  define A1 where "A1 = fl32 S1"
  define A2 where "A2 = fl32 S2"
  define u :: rat where "u = 2 powi (e - 23)"
  have upos: "0 < u" by (simp add: u_def)
  have hz1pos: "0 < hz1" using small by (rule less_le_trans [OF zero_less_power_int, rotated]) simp
  have hz2pos: "0 < hz2" using hz1pos lt by simp
  have Q1: "fquot n hz1 = fl32 (A1 / hz1)" by (simp add: fquot_def A1_def S1_def N_def)
  have Q2: "fquot n hz2 = fl32 (A2 / hz2)" by (simp add: fquot_def A2_def S2_def N_def)
  have S12: "S1 < S2" using lt by (simp add: S1_def S2_def)
  have S1lo: "2 powi e \<le> S1" using lo by (simp add: S1_def N_def)
  have S2hi: "S2 \<le> 2 powi (e + 1)" using hi by (simp add: S2_def N_def)
  have S1hi: "S1 \<le> 2 powi (e + 1)" using S12 S2hi by simp
  have S2lo: "2 powi e \<le> S2" using S12 S1lo by simp
  have e126: "- 126 \<le> e" using e by simp
  have S1pos: "0 < S1" using S1lo by (rule less_le_trans [OF zero_less_power_int, rotated]) simp
  have S2pos: "0 < S2" using S1pos S12 by simp
  from fl32_binade [OF S1lo S1hi e126] obtain a1
    where a1: "A1 = of_int a1 * u" and err1: "\<bar>A1 - S1\<bar> \<le> u / 2"
    unfolding A1_def u_def by blast
  from fl32_binade [OF S2lo S2hi e126] obtain a2
    where a2: "A2 = of_int a2 * u" and err2: "\<bar>A2 - S2\<bar> \<le> u / 2"
    unfolding A2_def u_def by blast
  have "fl32 (2 powi e) \<le> fl32 S1" using S1lo by (intro fl32_mono_pos) simp_all
  moreover have "fl32 (2 powi e) = 2 powi e" using e by (intro fl32_pow2) simp
  ultimately have A1lo: "2 powi e \<le> A1" by (simp add: A1_def)
  have "fl32 S2 \<le> fl32 (2 powi (e + 1))" using S2pos S2hi by (rule fl32_mono_pos)
  moreover have "fl32 (2 powi (e + 1)) = 2 powi (e + 1)" using e by (intro fl32_pow2) simp
  ultimately have A2hi: "A2 \<le> 2 powi (e + 1)" by (simp add: A2_def)
  have A1pos: "0 < A1" using A1lo by (rule less_le_trans [OF zero_less_power_int, rotated]) simp
  have "fl32 S1 \<le> fl32 S2" using S1pos S12 by (intro fl32_mono_pos) simp_all
  then have A12: "A1 \<le> A2" by (simp add: A1_def A2_def)
  have A2pos: "0 < A2" using A1pos A12 by simp
  \<comment> \<open>the quotient is at least 1\<close>
  have "hz1 < 2 * N" using lt le2n by (simp add: N_def)
  then have "hz1 \<le> S1" by (simp add: S1_def)
  with hz1pos have "fl32 hz1 \<le> fl32 S1" by (rule fl32_mono_pos)
  then have "hz1 \<le> A1" by (simp add: f1 A1_def)
  then have "1 \<le> A1 / hz1" using hz1pos by simp
  then have "fl32 1 \<le> fl32 (A1 / hz1)" by (intro fl32_mono_pos) simp_all
  moreover have "fl32 1 = 1" using fl32_pow2 [of 0] by simp
  ultimately have "1 \<le> fquot n hz1" by (simp add: Q1)
  then have T1lo: "1 \<le> \<lfloor>fquot n hz1\<rfloor>" by simp
  define k where "k = \<lfloor>fquot n hz1\<rfloor> + 1"
  have k2: "2 \<le> k" and khi: "k \<le> 65536" using T1lo T1 by (simp_all add: k_def)
  have q1: "fquot n hz1 < of_int k" unfolding k_def by linarith
  have "k \<le> \<lfloor>fquot n hz2\<rfloor>" using T12 by (simp add: k_def)
  then have q2: "of_int k \<le> fquot n hz2" by (simp only: le_floor_iff)
  \<comment> \<open>the binary exponent below \<open>k\<close>\<close>
  define j where "j = ilog2 (of_int (k - 1))"
  have km: "(0::rat) < of_int (k - 1)" using k2 by simp
  have jlo: "2 powi j \<le> (of_int (k - 1) :: rat)" and jhi: "(of_int (k - 1) :: rat) < 2 powi (j + 1)"
    unfolding j_def using km by (rule ilog2_bounds)+
  have "(2::rat) powi 0 \<le> of_int (k - 1)" using k2 by simp
  with jhi have "(2::rat) powi 0 < 2 powi (j + 1)" by simp
  then have "0 < j + 1" by (rule powi_less_cancel)
  then have j0: "0 \<le> j" by simp
  have "k - 1 < 65536" using khi by simp
  then have "(of_int (k - 1) :: rat) < of_int 65536" by (simp only: of_int_less_iff)
  with jlo have "(2::rat) powi j < 2 powi 16" by simp
  then have "j < 16" by (rule powi_less_cancel)
  then have j15: "j \<le> 15" and j22: "j \<le> 22" by simp_all
  have kJ: "(2::rat) powi j < of_int k"
  proof -
    have "(of_int (k - 1) :: rat) < of_int k" by simp
    with jlo show ?thesis by simp
  qed
  have kJ1: "(of_int k :: rat) \<le> 2 powi (j + 1)"
  proof -
    have "(2::rat) powi (j + 1) = of_int (2 ^ nat (j + 1))" using j0 by (intro powi_nat) simp
    with jhi have "(of_int (k - 1) :: rat) < of_int (2 ^ nat (j + 1))" by simp
    then have "k - 1 < 2 ^ nat (j + 1)" by (simp only: of_int_less_iff)
    then have "k \<le> 2 ^ nat (j + 1)" by simp
    then have "(of_int k :: rat) \<le> of_int (2 ^ nat (j + 1))" by (simp only: of_int_le_iff)
    then show ?thesis using \<open>(2::rat) powi (j + 1) = of_int (2 ^ nat (j + 1))\<close> by simp
  qed
  define c :: rat where "c = of_int k - 2 powi (j - 24)"
  have y1pos: "0 < A1 / hz1" using A1pos hz1pos by simp
  have y2pos: "0 < A2 / hz2" using A2pos hz2pos by simp
  have "\<not> of_int k \<le> fl32 (A1 / hz1)" using q1 by (simp add: Q1)
  then have "\<not> c \<le> A1 / hz1"
    unfolding c_def using fl32_int_threshold [OF j0 j22 kJ kJ1 y1pos] by simp
  then have "A1 / hz1 < c" by simp
  then have i: "A1 < c * hz1" using hz1pos by (simp add: pos_divide_less_eq)
  have "of_int k \<le> fl32 (A2 / hz2)" using q2 by (simp add: Q2)
  then have "c \<le> A2 / hz2"
    unfolding c_def using fl32_int_threshold [OF j0 j22 kJ kJ1 y2pos] by simp
  then have ii: "c * hz2 \<le> A2" using hz2pos by (simp add: pos_le_divide_eq)
  have "(2::rat) powi (j - 24) \<le> 2 powi (- 9)" using j15 by (intro powi_le_mono) simp
  also have "(2::rat) powi (- 9) \<le> 1 / 2" by (simp add: power_int_minus_divide)
  finally have hh: "(2::rat) powi (j - 24) \<le> 1 / 2" .
  have "(2::rat) \<le> of_int k" using k2 by simp
  with hh have c32: "3 / 2 \<le> c" by (simp add: c_def)
  have e1': "\<bar>A1 - (N + hz1 / 2)\<bar> \<le> u / 2" using err1 by (simp only: S1_def)
  have e2': "\<bar>A2 - (N + hz2 / 2)\<bar> \<le> u / 2" using err2 by (simp only: S2_def)
  have a21: "a2 = a1 + 1" using upos c32 a1 a2 e1' e2' i ii lt by (rule grid_step)
  \<comment> \<open>the grids of the two frequencies and of the sum\<close>
  define p where "p = ilog2 hz1"
  define s :: rat where "s = 2 powi (p - 23)"
  have plo: "2 powi p \<le> hz1" and phi: "hz1 < 2 powi (p + 1)"
    unfolding p_def using hz1pos by (rule ilog2_bounds)+
  have "(2::rat) powi (- 100) < 2 powi (p + 1)" using small phi by simp
  then have "- 100 < p + 1" by (rule powi_less_cancel)
  then have p100: "- 100 \<le> p" by simp
  then have ue1: "ulp_exp hz1 = p - 23" using hz1pos by (simp add: ulp_exp_pos p_def)
  from fl32_float_grid [OF f1] obtain m1 where m1: "hz1 = of_int m1 * s"
    unfolding ue1 s_def by blast
  define w where "w = ulp_exp hz2"
  have "ilog2 hz1 \<le> ilog2 hz2" using hz1pos lt by (intro ilog2_mono) simp_all
  then have ue2: "p - 23 \<le> w" using hz2pos by (simp add: ulp_exp_pos p_def w_def)
  from fl32_float_grid [OF f2] obtain m2' where m2': "hz2 = of_int m2' * 2 powi w"
    unfolding w_def by blast
  have "(2::rat) powi w = s * 2 powi (w - (p - 23))"
    unfolding s_def by (rule powi_split)
  also have "(2::rat) powi (w - (p - 23)) = of_int (2 ^ nat (w - (p - 23)))"
    using ue2 by (intro powi_nat) simp
  finally have "of_int m2' * 2 powi w = of_int (m2' * 2 ^ nat (w - (p - 23))) * s"
    by simp
  with m2' have "hz2 = of_int (m2' * 2 ^ nat (w - (p - 23))) * s" by (simp only:)
  then obtain m2 where m2: "hz2 = of_int m2 * s" ..
  have "2 powi p \<le> S1" using plo \<open>hz1 \<le> S1\<close> by simp
  with S12 S2hi have "(2::rat) powi p < 2 powi (e + 1)" by simp
  then have "p < e + 1" by (rule powi_less_cancel)
  then have pe: "p \<le> e" by simp
  have "u = s * 2 powi ((e - 23) - (p - 23))" unfolding u_def s_def by (rule powi_split)
  also have "(2::rat) powi ((e - 23) - (p - 23)) = of_int (2 ^ nat ((e - 23) - (p - 23)))"
    using pe by (intro powi_nat) simp
  finally have "u = of_int (2 ^ nat ((e - 23) - (p - 23))) * s" by simp
  then obtain G where G: "u = of_int G * s" ..
  define X where "X = n * 2 ^ nat (24 - e)"
  have "(2::rat) powi 1 = u * 2 powi (1 - (e - 23))" unfolding u_def by (rule powi_split)
  also have "(2::rat) powi (1 - (e - 23)) = of_int (2 ^ nat (1 - (e - 23)))"
    using e by (intro powi_nat) simp
  also have "1 - (e - 23) = 24 - e" by simp
  finally have two: "(2::rat) = u * of_int (2 ^ nat (24 - e))" by simp
  have "2 * N = (u * of_int (2 ^ nat (24 - e))) * N" by (simp only: two [symmetric])
  also have "\<dots> = of_int X * u" by (simp add: X_def N_def)
  finally have X1: "2 * N = of_int X * u" .
  have "0 < nat (24 - e)" using e by simp
  then have X2: "even X" by (simp add: X_def)
  show False
  proof (rule threshold_crossing_impossible [where k = k and j = j and e = e and p = p
        and a = a1 and ma = m1 and mb = m2 and X = X and G = G and x = hz1 and y = hz2
        and N = N])
    show "0 \<le> j" by (rule j0)
    show "j \<le> 22" by (rule j22)
    show "(2::rat) powi j < of_int k" by (rule kJ)
    show "(of_int k :: rat) \<le> 2 powi (j + 1)" by (rule kJ1)
    show "of_int a1 * 2 powi (e - 23) < (of_int k - 2 powi (j - 24)) * hz1"
      using i by (simp only: a1 c_def u_def)
    show "(of_int k - 2 powi (j - 24)) * hz2 \<le> of_int (a1 + 1) * 2 powi (e - 23)"
      using ii by (simp only: a2 a21 c_def u_def)
    show "\<bar>of_int a1 * 2 powi (e - 23) - (N + hz1 / 2)\<bar> \<le> 2 powi (e - 23) / 2"
      using e1' by (simp only: a1 u_def)
    show "\<bar>of_int (a1 + 1) * 2 powi (e - 23) - (N + hz2 / 2)\<bar> \<le> 2 powi (e - 23) / 2"
      using e2' by (simp only: a2 a21 u_def)
    show "(2::rat) powi e \<le> of_int a1 * 2 powi (e - 23)" using A1lo by (simp only: a1 u_def)
    show "of_int (a1 + 1) * 2 powi (e - 23) \<le> (2::rat) powi (e + 1)" using A2hi by (simp only: a2 a21 u_def)
    show "2 powi p \<le> hz1" by (rule plo)
    show "hz1 < 2 powi (p + 1)" by (rule phi)
    show "hz1 = of_int m1 * 2 powi (p - 23)" using m1 by (simp only: s_def)
    show "hz2 = of_int m2 * 2 powi (p - 23)" using m2 by (simp only: s_def)
    show "(2::rat) powi (e - 23) = of_int G * 2 powi (p - 23)" using G by (simp only: u_def s_def)
    show "2 * N = of_int X * 2 powi (e - 23)" using X1 by (simp only: u_def)
    show "even X" by (rule X2)
    show "hz1 < hz2" by (rule lt)
  qed
qed

lemma ilog2_half:
  assumes "0 < x"
  shows "ilog2 (x / 2) = ilog2 x - 1"
proof (rule ilog2_unique)
  have a: "(2::rat) powi ilog2 x = 2 powi (ilog2 x - 1) * 2"
    using powi_split [of "ilog2 x" "ilog2 x - 1"] by simp
  show "2 powi (ilog2 x - 1) \<le> x / 2" using ilog2_bounds(1) [OF assms] by (simp add: a)
  have "ilog2 x - 1 + 1 = ilog2 x" by simp
  moreover have "x / 2 < 2 powi (ilog2 x)" using ilog2_bounds(2) [OF assms] 
    by (simp add: powi_split [of "ilog2 x + 1" "ilog2 x"])
  ultimately show "x / 2 < 2 powi (ilog2 x - 1 + 1)" by simp
qed

lemma fl32_half:
  assumes f: "fl32 x = x" and small: "2 powi (- 100) \<le> x"
  shows "fl32 (x / 2) = x / 2"
proof -
  have xpos: "0 < x" using small by (rule less_le_trans [OF zero_less_power_int, rotated]) simp
  define p where "p = ilog2 x"
  have "(2::rat) powi (- 100) < 2 powi (p + 1)"
    using small ilog2_bounds(2) [OF xpos] by (simp add: p_def)
  then have "- 100 < p + 1" by (rule powi_less_cancel)
  then have p: "- 100 \<le> p" by simp
  then have ux: "ulp_exp x = p - 23" using xpos by (simp add: ulp_exp_pos p_def)
  have "ulp_exp (x / 2) = p - 24" using xpos p by (simp add: ulp_exp_pos ilog2_half p_def)
  then have le: "ulp_exp (x / 2) \<le> p - 24" by simp
  from fl32_float_grid [OF f] obtain m where m: "x = of_int m * 2 powi (p - 23)"
    unfolding ux by blast
  have "(2::rat) powi (p - 23) = 2 powi (p - 24) * 2" using powi_split [of "p - 23" "p - 24"] by simp
  with m have "x / 2 = of_int m * 2 powi (p - 24)" by simp
  then show ?thesis using le by (rule fl32_dyadic)
qed

lemma fquot_antimono:
  fixes n :: int and hz1 hz2 :: rat
  assumes f1: "fl32 hz1 = hz1" and f2: "fl32 hz2 = hz2"
    and small: "2 powi (- 100) \<le> hz1" and lt: "hz1 < hz2" and le2n: "hz2 \<le> 2 * of_int n"
    and n: "n < 2 ^ 23"
    and T1: "\<lfloor>fquot n hz1\<rfloor> < 65536"
  shows "\<lfloor>fquot n hz2\<rfloor> \<le> \<lfloor>fquot n hz1\<rfloor>"
proof -
  define N :: rat where "N = of_int n"
  define S1 where "S1 = N + hz1 / 2"
  define S2 where "S2 = N + hz2 / 2"
  define e where "e = ilog2 S1"
  have hz1pos: "0 < hz1" using small by (rule less_le_trans [OF zero_less_power_int, rotated]) simp
  have hz2pos: "0 < hz2" using hz1pos lt by simp
  have "(0::rat) < 2 * of_int n" using hz2pos le2n by simp
  then have "0 < n" by simp
  then have "1 \<le> n" by simp
  then have "(of_int 1 :: rat) \<le> of_int n" by (simp only: of_int_le_iff)
  then have N1: "1 \<le> N" by (simp add: N_def)
  have "(of_int n :: rat) < of_int (2 ^ 23)" using n by (simp only: of_int_less_iff)
  then have Nhi: "N < 2 ^ 23" by (simp add: N_def)
  have S12: "S1 < S2" using lt by (simp add: S1_def S2_def)
  have S1pos: "0 < S1" using N1 hz1pos by (simp add: S1_def)
  have S2N: "S2 \<le> 2 * N" using le2n by (simp add: S2_def N_def)
  have S1N: "N \<le> S1" using hz1pos by (simp add: S1_def)
  have elo: "2 powi e \<le> S1" and ehi: "S1 < 2 powi (e + 1)"
    unfolding e_def using S1pos by (rule ilog2_bounds)+
  have "(2::rat) powi 0 \<le> S1" using N1 S1N by simp
  with ehi have "(2::rat) powi 0 < 2 powi (e + 1)" by simp
  then have "0 < e + 1" by (rule powi_less_cancel)
  then have e0: "0 \<le> e" by simp
  have "S1 < 2 powi 24" using S12 S2N Nhi by simp
  with elo have "(2::rat) powi e < 2 powi 24" by simp
  then have "e < 24" by (rule powi_less_cancel)
  then have e23: "e \<le> 23" by simp
  have lo1: "2 powi e \<le> of_int n + hz1 / 2" using elo by (simp add: S1_def N_def)
  show ?thesis
  proof (cases "S2 \<le> 2 powi (e + 1)")
    case True
    then have "of_int n + hz2 / 2 \<le> 2 powi (e + 1)" by (simp add: S2_def N_def)
    with f1 f2 small lt le2n e0 e23 lo1 show ?thesis using T1 by (rule fquot_antimono_binade)
  next
    case False
    then have B2: "2 powi (e + 1) < S2" by simp
    define m where "m = 2 ^ nat (e + 1) - n"
    define B :: rat where "B = 2 powi (e + 1)"
    define b :: rat where "b = 2 * (B - N)"
    have Bint: "B = of_int (2 ^ nat (e + 1))" unfolding B_def using e0 by (intro powi_nat) simp
    have bm: "b = of_int m * 2 powi 1" by (simp add: b_def m_def Bint N_def)
    have "of_int n + b / 2 = B" by (simp add: b_def N_def field_simps)
    then have Sb: "of_int n + b / 2 = 2 powi (e + 1)" by (simp only: B_def)
    have hb: "hz1 < b" using ehi by (simp add: b_def S1_def B_def [symmetric])
    have bh: "b < hz2" using B2 by (simp add: b_def S2_def B_def [symmetric])
    have bsmall: "2 powi (- 100) \<le> b" using small hb by simp
    have bpos: "0 < b" using hz1pos hb by simp
    have "b < 2 * N" using bh le2n by (simp add: N_def)
    then have "b < 2 powi 24" using Nhi by simp
    then have bhi: "\<bar>b\<bar> < 2 powi 24" using bpos by simp
    have blo: "2 powi (- 100) \<le> \<bar>b\<bar>" using bsmall bpos by simp
    have "ulp_exp b < 24 - 23" using blo bhi by (rule ulp_exp_range(2)) simp
    then have "ulp_exp b \<le> 1" by simp
    with bm have fb: "fl32 b = b" by (rule fl32_dyadic)
    have le2n': "b \<le> 2 * of_int n" using bh le2n by simp
    have hi1: "of_int n + b / 2 \<le> 2 powi (e + 1)" by (simp only: Sb)
    have first: "\<lfloor>fquot n b\<rfloor> \<le> \<lfloor>fquot n hz1\<rfloor>"
      using f1 fb small hb le2n' e0 e23 lo1 hi1 T1 by (rule fquot_antimono_binade)
    have Tb: "\<lfloor>fquot n b\<rfloor> < 65536" using first T1 by (rule le_less_trans)
    have e0': "0 \<le> e + 1" using e0 by simp
    have "S2 < 2 powi 24" using S2N Nhi by simp
    with B2 have "(2::rat) powi (e + 1) < 2 powi 24" by simp
    then have "e + 1 < 24" by (rule powi_less_cancel)
    then have e23': "e + 1 \<le> 23" by simp
    have lo2: "2 powi (e + 1) \<le> of_int n + b / 2" by (simp only: Sb)
    have "S2 \<le> 2 * S1" using S2N S1N by simp
    also have "\<dots> < 2 * 2 powi (e + 1)" using ehi by simp
    also have "\<dots> = 2 powi (e + 1 + 1)" using powi_split [of "e + 1 + 1" "e + 1"] by simp
    finally have hi2: "of_int n + hz2 / 2 \<le> 2 powi (e + 1 + 1)" by (simp add: S2_def N_def)
    have second: "\<lfloor>fquot n hz2\<rfloor> \<le> \<lfloor>fquot n b\<rfloor>"
      using fb f2 bsmall bh le2n e0' e23' lo2 hi2 Tb by (rule fquot_antimono_binade)
    from second first show ?thesis by (rule order_trans)
  qed
qed

lemma fl32_nonneg: "0 \<le> x \<Longrightarrow> 0 \<le> fl32 x"
  using fl32_ge_grid [of 0 x] by simp

lemma count_of_float:
  fixes n :: int
  assumes c: "count_of n hz = Some c" and f: "fl32 hz = hz" and pos: "0 < hz"
    and le2n: "hz \<le> 2 * of_int n" and n: "n < 2 ^ 23"
  shows "2 powi (- 100) \<le> hz" and "1 \<le> \<lfloor>fquot n hz\<rfloor>" and "\<lfloor>fquot n hz\<rfloor> < 65536"
    and "uint c = \<lfloor>fquot n hz\<rfloor> - 1"
proof -
  define N :: rat where "N = of_int n"
  define a where "a = fl32 (N + fl32 (hz / 2))"
  define q where "q = fl32 (a / hz)"
  have "(0::rat) < 2 * of_int n" using pos le2n by simp
  then have "0 < n" by simp
  then have n1: "1 \<le> n" by simp
  then have "(of_int 1 :: rat) \<le> of_int n" by (simp only: of_int_le_iff)
  then have N1: "1 \<le> N" by (simp add: N_def)
  have fn: "fl32 (of_int n) = N" unfolding N_def using n n1 by (intro fl32_int) simp
  have h0: "0 \<le> fl32 (hz / 2)" using pos by (intro fl32_nonneg) simp
  have "fl32 1 \<le> fl32 (N + fl32 (hz / 2))" using N1 h0 by (intro fl32_mono_pos) simp_all
  moreover have one: "fl32 1 = 1" using fl32_pow2 [of 0] by simp
  ultimately have a1: "1 \<le> a" by (simp add: a_def)
  have ypos: "0 < a / hz" using a1 pos by simp
  then have q0: "0 \<le> q" unfolding q_def by (intro fl32_nonneg) simp
  from c have "map_option (\<lambda>w. w - 1) (float_to_u16 q) = Some c"
    by (simp add: count_of_def Let_def fn a_def q_def split: if_splits)
  then obtain w where w: "float_to_u16 q = Some w" and cw: "c = w - 1" by auto
  from w q0 have qhi: "\<lfloor>q\<rfloor> < 65536" and ww: "w = word_of_int \<lfloor>q\<rfloor>"
    by (auto simp: float_to_u16_def ftrunc_def Let_def split: if_splits)
  have fl65536: "fl32 65536 = 65536" using fl32_pow2 [of 16] by simp
  have ylt: "a / hz < 65536"
  proof (rule ccontr)
    assume "\<not> ?thesis"
    then have "65536 \<le> a / hz" by simp
    then have "fl32 65536 \<le> fl32 (a / hz)" by (intro fl32_mono_pos) simp_all
    then have "65536 \<le> q" by (simp add: fl65536 q_def)
    then have "65536 \<le> \<lfloor>q\<rfloor>" by (simp add: le_floor_iff)
    with qhi show False by simp
  qed
  then have "a < 65536 * hz" using pos by (simp add: pos_divide_less_eq)
  with a1 have "1 < 65536 * hz" by simp
  then have "1 / 65536 < hz" by simp
  moreover have "(2::rat) powi (- 100) \<le> 1 / 65536"
  proof -
    have "(2::rat) powi (- 100) \<le> 2 powi (- 16)" by (intro powi_le_mono) simp
    then show ?thesis by (simp add: power_int_minus_divide)
  qed
  ultimately show small: "2 powi (- 100) \<le> hz" by simp
  have hh: "fl32 (hz / 2) = hz / 2" using f small by (rule fl32_half)
  have qQ: "q = fquot n hz" by (simp only: q_def a_def fquot_def N_def hh)
  show hi: "\<lfloor>fquot n hz\<rfloor> < 65536" using qhi by (simp only: qQ)
  have "hz \<le> N + hz / 2" using le2n by (simp add: N_def)
  with pos have "fl32 hz \<le> fl32 (N + hz / 2)" by (rule fl32_mono_pos)
  then have "hz \<le> fl32 (N + hz / 2)" by (simp only: f)
  then have "1 \<le> fl32 (N + hz / 2) / hz" using pos by simp
  then have "fl32 1 \<le> fl32 (fl32 (N + hz / 2) / hz)" by (intro fl32_mono_pos) simp_all
  then have "1 \<le> fquot n hz" by (simp add: one fquot_def N_def)
  then show lo: "1 \<le> \<lfloor>fquot n hz\<rfloor>" by simp
  have "c = word_of_int (\<lfloor>fquot n hz\<rfloor> - 1)" by (simp add: cw ww qQ)
  moreover have "uint (word_of_int (\<lfloor>fquot n hz\<rfloor> - 1) :: 16 word) = (\<lfloor>fquot n hz\<rfloor> - 1) mod 2 ^ LENGTH(16)"
    by (rule uint_word_of_int)
  moreover have "(\<lfloor>fquot n hz\<rfloor> - 1) mod 2 ^ LENGTH(16) = \<lfloor>fquot n hz\<rfloor> - 1" using lo hi by simp
  ultimately show "uint c = \<lfloor>fquot n hz\<rfloor> - 1" by (simp only:)
qed

lemma count_of_antimono:
  fixes n :: int
  assumes c1: "count_of n hz1 = Some c1" and c2: "count_of n hz2 = Some c2"
    and f1: "fl32 hz1 = hz1" and f2: "fl32 hz2 = hz2"
    and pos: "0 < hz1" and le: "hz1 \<le> hz2" and le2n: "hz2 \<le> 2 * of_int n" and n: "n < 2 ^ 23"
  shows "c2 \<le> c1"
proof (cases "hz1 = hz2")
  case True
  with c1 c2 show ?thesis by simp
next
  case False
  with le have lt: "hz1 < hz2" by simp
  have pos2: "0 < hz2" using pos lt by simp
  have le2n1: "hz1 \<le> 2 * of_int n" using lt le2n by simp
  note r1 = count_of_float [OF c1 f1 pos le2n1 n]
  note r2 = count_of_float [OF c2 f2 pos2 le2n n]
  have "\<lfloor>fquot n hz2\<rfloor> \<le> \<lfloor>fquot n hz1\<rfloor>"
    using f1 f2 r1(1) lt le2n n r1(3) by (rule fquot_antimono)
  then have "uint c2 \<le> uint c1" by (simp only: r1(4) r2(4) diff_right_mono)
  then show ?thesis by (simp only: word_le_def)
qed


section \<open>The claims about the tone state machine\<close>


text \<open>
  Claim C2. For every \<open>n\<close> from 1 to 255 and every count \<open>c\<close>, after \<open>tone(c, n)\<close> the
  channel is Silent after the \<open>n\<close>-th call of \<open>timer()\<close> and Sounding after each smaller
  number \<open>k\<close> of calls, with \<open>n - k\<close> left in the counter; and a call of \<open>timer()\<close> with a
  nonzero counter decrements it by 1 and does what \<open>noTone()\<close> does exactly when the
  decrement reaches 0.
\<close>

theorem timed_tone_stops_at_nth_timer_call:
  assumes "1 \<le> n" and "n \<le> 255"
  shows "mode ((timer ^^ n) (tone_dur s c (of_nat n))) = Silent
         \<and> (\<forall>k<n. mode ((timer ^^ k) (tone_dur s c (of_nat n))) = Sounding
                  \<and> unat (duration ((timer ^^ k) (tone_dur s c (of_nat n)))) = n - k)
         \<and> (\<forall>t. duration t \<noteq> 0 \<longrightarrow>
                duration (timer t) = duration t - 1
                \<and> timer t = (if duration t - 1 = 0 then noTone (t\<lparr>duration := 0\<rparr>)
                             else t\<lparr>duration := duration t - 1\<rparr>))"
proof -
  let ?s = "tone_dur s c (of_nat n)"
  have d: "duration ?s = of_nat n" by (simp add: tone_dur_def)
  have un: "unat (of_nat n :: 8 word) = n" using assms(2) by (simp add: unat_of_nat)
  then have ud: "unat (duration ?s) = n" by (simp only: d)
  then have nz: "duration ?s \<noteq> 0" using assms(1) by (auto simp: unat_eq_zero)
  have m: "mode ?s = Sounding" by (simp add: tone_dur_def tone_def)
  have "(timer ^^ n) ?s = noTone (?s\<lparr>duration := 0\<rparr>)"
    using timer_iter_last [OF nz] by (simp only: ud)
  then have 1: "mode ((timer ^^ n) ?s) = Silent" by (simp add: noTone_def)
  have 2: "mode ((timer ^^ k) ?s) = Sounding \<and> unat (duration ((timer ^^ k) ?s)) = n - k"
    if "k < n" for k
  proof -
    from that have k: "k < unat (duration ?s)" by (simp only: ud)
    have "(timer ^^ k) ?s = ?s\<lparr>duration := duration ?s - of_nat k\<rparr>"
      using k by (rule timer_iter_running)
    moreover have "unat (duration ?s - of_nat k) = n - k"
      using unat_sub_of_nat [of k "duration ?s"] k ud by simp
    ultimately show ?thesis using m by simp
  qed
  have 3: "duration (timer t) = duration t - 1
           \<and> timer t = (if duration t - 1 = 0 then noTone (t\<lparr>duration := 0\<rparr>)
                        else t\<lparr>duration := duration t - 1\<rparr>)"
    if "duration t \<noteq> 0" for t
    using that by (simp add: timer_def Let_def noTone_def)
  from 1 2 3 show ?thesis by blast
qed

text \<open>\<open>tone(999, 100)\<close>: Sounding with 1 left after 99 calls, Silent after 100.\<close>

theorem timed_tone_stops_at_nth_timer_call_witness:
  "(1::nat) \<le> 100 \<and> (100::nat) \<le> 255 \<and> (99::nat) < 100
   \<and> mode ((timer ^^ 99) (tone_dur (begin_chan (startup Silent 0 False False False)) 999 100))
       = Sounding
   \<and> duration ((timer ^^ 99) (tone_dur (begin_chan (startup Silent 0 False False False)) 999 100))
       = 1
   \<and> mode ((timer ^^ 100) (tone_dur (begin_chan (startup Silent 0 False False False)) 999 100))
       = Silent
   \<and> duration (tone_dur (begin_chan (startup Silent 0 False False False)) 999 100) \<noteq> 0
   \<and> duration (timer (tone_dur (begin_chan (startup Silent 0 False False False)) 999 100)) = 99"
proof -
  let ?s = "begin_chan (startup Silent 0 False False False)"
  have p1: "(1::nat) \<le> 100" and p2: "(100::nat) \<le> 255" and p3: "(99::nat) < 100"
    by simp_all
  note t = timed_tone_stops_at_nth_timer_call [of 100 ?s 999, OF p1 p2, unfolded of_nat_numeral]
  note a = t [THEN conjunct1]
  note b = t [THEN conjunct2, THEN conjunct1, rule_format, OF p3]
  have d: "duration (tone_dur ?s 999 100) \<noteq> 0" by (simp add: tone_dur_def)
  note e = t [THEN conjunct2, THEN conjunct2, rule_format, OF d, THEN conjunct1]
  from b have b1: "mode ((timer ^^ 99) (tone_dur ?s 999 100)) = Sounding"
    and "unat (duration ((timer ^^ 99) (tone_dur ?s 999 100))) = 100 - 99"
    by (rule conjunct1, rule conjunct2)
  then have c: "duration ((timer ^^ 99) (tone_dur ?s 999 100)) = 1"
    by (simp add: word_unat_eq_iff)
  have "duration (tone_dur ?s 999 100) = 100" by (simp add: tone_dur_def)
  with e have e': "duration (timer (tone_dur ?s 999 100)) = 99" by simp
  from p1 p2 p3 a b1 c d e' show ?thesis by (intro conjI)
qed

text \<open>
  Claim C6. For every count \<open>c\<close>, \<open>tone(c)\<close> sets the counter to 0; a call of \<open>timer()\<close>
  with the counter at 0 leaves the whole channel state unchanged; hence any number of
  calls of \<open>timer()\<close> after \<open>tone(c)\<close> leaves the channel as it was, Sounding.
\<close>

theorem continuous_tone_never_stops:
  "duration (tone s c) = 0
   \<and> (\<forall>t. duration t = 0 \<longrightarrow> timer t = t)
   \<and> (\<forall>k. (timer ^^ k) (tone s c) = tone s c \<and> mode ((timer ^^ k) (tone s c)) = Sounding)"
proof -
  have d: "duration (tone s c) = 0" by (simp add: tone_def)
  have m: "mode (tone s c) = Sounding" by (simp add: tone_def)
  from d m show ?thesis by (simp add: timer_zero timer_iter_zero)
qed

text \<open>A timed tone replaced by a continuous one, then 254 calls of \<open>timer()\<close>.\<close>

theorem continuous_tone_never_stops_witness:
  "duration (tone_dur (begin_chan (startup Silent 0 False False False)) 999 100) = 100
   \<and> duration (tone (tone_dur (begin_chan (startup Silent 0 False False False)) 999 100) 440) = 0
   \<and> timer (tone (tone_dur (begin_chan (startup Silent 0 False False False)) 999 100) 440)
       = tone (tone_dur (begin_chan (startup Silent 0 False False False)) 999 100) 440
   \<and> mode ((timer ^^ 254) (tone (tone_dur (begin_chan (startup Silent 0 False False False)) 999 100) 440))
       = Sounding"
proof -
  let ?s = "tone_dur (begin_chan (startup Silent 0 False False False)) 999 100"
  note t = continuous_tone_never_stops [of ?s 440]
  note a = t [THEN conjunct1]
  note b = t [THEN conjunct2, THEN conjunct1, rule_format, OF a]
  note c = t [THEN conjunct2, THEN conjunct2, rule_format, of 254, THEN conjunct2]
  have d: "duration ?s = 100" by (simp add: tone_dur_def)
  from d a b c show ?thesis by (intro conjI)
qed

text \<open>
  Claim C7. For every count \<open>c\<close>, \<open>tone(c, 0)\<close> yields the same channel state as
  \<open>tone(c)\<close>, and no number \<open>k\<close> of calls of \<open>timer()\<close> stops the tone.
\<close>

theorem zero_duration_is_continuous:
  "tone_dur s c 0 = tone s c
   \<and> (timer ^^ k) (tone_dur s c 0) = tone s c
   \<and> mode ((timer ^^ k) (tone_dur s c 0)) = Sounding"
proof -
  have e: "tone_dur s c 0 = tone s c" by (simp add: tone_dur_def tone_def)
  have d: "duration (tone s c) = 0" by (simp add: tone_def)
  have m: "mode (tone s c) = Sounding" by (simp add: tone_def)
  from e d m show ?thesis by (simp add: timer_iter_zero)
qed

text \<open>
  Claim C8. In every channel state, \<open>noTone()\<close> leaves the channel Silent (also when it
  was Silent already), a counter that was 0 stays 0, and a second \<open>noTone()\<close> changes
  nothing.
\<close>

theorem noTone_silent_idempotent:
  "mode (noTone s) = Silent
   \<and> (duration s = 0 \<longrightarrow> duration (noTone s) = 0)
   \<and> (mode s = Silent \<longrightarrow> mode (noTone s) = Silent)
   \<and> noTone (noTone s) = noTone s"
  by (simp add: noTone_def)

text \<open>\<open>noTone()\<close> on a channel that is Silent with the counter at 0.\<close>

theorem noTone_silent_idempotent_witness:
  "duration (begin_chan (startup Sounding 7 True True True)) = 0
   \<and> mode (begin_chan (startup Sounding 7 True True True)) = Silent
   \<and> duration (noTone (begin_chan (startup Sounding 7 True True True))) = 0
   \<and> mode (noTone (begin_chan (startup Sounding 7 True True True))) = Silent"
proof -
  let ?s = "begin_chan (startup Sounding 7 True True True)"
  have d: "duration ?s = 0" and m: "mode ?s = Silent"
    by (simp_all add: begin_chan_def startup_def)
  from noTone_silent_idempotent [of ?s] d m show ?thesis by simp
qed



section \<open>The claims about the conversion\<close>

text \<open>
  Claim C10. With \<open>__SAMD51__\<close> defined, \<open>BeepPin1::freq\<close> converts nothing: for every
  \<open>hz\<close> whose integer part fits \<open>uint16_t\<close> it returns that integer part, \<open>hz\<close> truncated
  towards zero.
\<close>

theorem samd51_freq_is_truncation:
  assumes "- 1 < hz" and "hz < 65536"
  shows "BeepPin1_freq_samd51 hz = Some (word_of_int (ftrunc hz))
         \<and> uint (word_of_int (ftrunc hz) :: 16 word) = ftrunc hz"
proof -
  have lo: "0 \<le> ftrunc hz"
  proof (cases "0 \<le> hz")
    case True
    then show ?thesis by (simp add: ftrunc_def)
  next
    case False
    have "0 \<le> \<lceil>hz\<rceil>" using assms(1) by linarith
    with False show ?thesis by (simp only: ftrunc_def if_False)
  qed
  have hi: "ftrunc hz < 65536"
  proof (cases "0 \<le> hz")
    case True
    with assms(2) show ?thesis by (simp add: ftrunc_def floor_less_iff)
  next
    case False
    then have "\<lceil>hz\<rceil> < 65536" by linarith
    with False show ?thesis by (simp only: ftrunc_def if_False)
  qed
  have "uint (word_of_int (ftrunc hz) :: 16 word) = ftrunc hz mod 2 ^ 16"
    by (simp add: uint_word_of_int)
  also have "\<dots> = ftrunc hz" using lo hi by simp
  finally show ?thesis using lo hi by (simp add: BeepPin1_freq_samd51_def float_to_u16_def)
qed

text \<open>1000 Hz gives 1000, not the 999 of the conversion; 440.5 Hz gives 440.\<close>

theorem samd51_freq_is_truncation_witness:
  "(- 1 :: rat) < 1000 \<and> (1000 :: rat) < 65536
   \<and> BeepPin1_freq_samd51 1000 = Some 1000
   \<and> BeepPin1_freq 16000000 1000 = Some 999
   \<and> BeepPin1_freq_samd51 (881 / 2) = Some 440"
proof -
  have a: "BeepPin1_freq_samd51 1000 = Some 1000"
    using samd51_freq_is_truncation [of 1000] by (simp add: ftrunc_def)
  have b: "BeepPin1_freq_samd51 (881 / 2) = Some 440"
    using samd51_freq_is_truncation [of "881 / 2"] by (simp add: ftrunc_def floor_rat_numeral)
  have c: "BeepPin1_freq 16000000 1000 = Some 999" by code_simp
  from a b c show ?thesis by simp
qed


text \<open>
  Claim C1, as amended. For every whole-number frequency \<open>hz > 0\<close> that is small enough
  for the single-precision operations to be exact (\<open>2 * (F_CPU / 8 / 2) + hz \<le> 2 ^ 23\<close>)
  and whose rounded quotient fits 16 bits, \<open>BeepPin1::freq\<close> returns the 16-bit value of
  \<open>round((F_CPU / 8 / 2) / hz) - 1\<close>, where rounding to nearest with ties upwards is the
  floor of the quotient taken after adding half the denominator.
\<close>

theorem BeepPin1_freq_whole_hz:
  assumes "0 \<le> F_CPU" and "0 < hz" and "2 * (F_CPU div 8 div 2) + hz \<le> 2 ^ 23"
    and "round_half_up (of_int (F_CPU div 8 div 2) / of_int hz) \<le> 65535"
  shows "BeepPin1_freq F_CPU (of_int hz)
           = Some (word_of_int (spec_count (F_CPU div 8 div 2) (of_int hz)))
         \<and> spec_count (F_CPU div 8 div 2) (of_int hz)
           = \<lfloor>(of_int (F_CPU div 8 div 2) + of_int hz / 2 :: rat) / of_int hz\<rfloor> - 1"
proof -
  let ?n = "F_CPU div 8 div 2"
  have n0: "0 \<le> ?n" using assms(1) by (simp add: pos_imp_zdiv_nonneg_iff)
  have k: "(2 * ?n + hz) div (2 * hz) < 65536"
    using assms(4) round_half_up_quotient [OF assms(2), of ?n] by simp
  have "BeepPin1_freq F_CPU (of_int hz) = count_of ?n (of_int hz)"
    using assms(1) by (rule BeepPin1_freq_count_of)
  also have "\<dots> = Some (word_of_int ((2 * ?n + hz) div (2 * hz) - 1))"
    using count_of_whole [OF assms(2) n0 assms(3)] k by simp
  also have "(2 * ?n + hz) div (2 * hz) - 1 = spec_count ?n (of_int hz)"
    using spec_count_whole [OF assms(2)] by simp
  finally have a: "BeepPin1_freq F_CPU (of_int hz) = Some (word_of_int (spec_count ?n (of_int hz)))" .
  have "(0::rat) < of_int hz" using assms(2) by simp
  from round_half_up_add_half [OF this]
  have b: "spec_count ?n (of_int hz) = \<lfloor>(of_int ?n + of_int hz / 2 :: rat) / of_int hz\<rfloor> - 1"
    by (simp add: spec_count_def)
  from a b show ?thesis by (simp only:)
qed

text \<open>At 16 MHz, \<open>freq(1000)\<close> is 999.\<close>

theorem BeepPin1_freq_whole_hz_witness:
  "(0::int) \<le> 16000000 \<and> (0::int) < 1000 \<and> 2 * (16000000 div 8 div 2) + 1000 \<le> (2::int) ^ 23
   \<and> round_half_up (of_int (16000000 div 8 div 2) / of_int 1000) \<le> 65535
   \<and> BeepPin1_freq 16000000 1000 = Some 999"
proof -
  have r: "round_half_up (of_int (16000000 div 8 div 2) / of_int 1000) = 1000"
    using round_half_up_quotient [of 1000 "16000000 div 8 div 2"] by simp
  then have "spec_count (16000000 div 8 div 2) (of_int 1000) = 999"
    by (simp add: spec_count_def)
  with r show ?thesis
    using BeepPin1_freq_whole_hz [of 16000000 1000] by simp
qed

text \<open>
  Claim C1 as stated, for every positive \<open>hz\<close>, fails: at the \<open>float\<close> 666666.6875 the
  sum is rounded upwards and the function returns 1, where the formula gives 0; and at
  1 Hz the quotient does not fit \<open>uint16_t\<close>.
\<close>

theorem BeepPin1_freq_counterexample:
  "fl32 (10666667 / 16) = 10666667 / 16
   \<and> BeepPin1_freq 16000000 (10666667 / 16) = Some 1
   \<and> spec_count (16000000 div 8 div 2) (10666667 / 16) = 0
   \<and> BeepPin1_freq 16000000 1 = None
   \<and> spec_count (16000000 div 8 div 2) 1 = 999999"
  by code_simp




text \<open>
  Claim C3, as amended. For every whole-number frequency \<open>hz > 0\<close> that is small enough
  for the single-precision operations to be exact (\<open>2 * (F_CPU / 128 / 2) + hz \<le> 2 ^ 23\<close>)
  and whose rounded quotient fits 16 bits, \<open>BeepPin2::freq\<close> returns the 16-bit value of
  \<open>round((F_CPU / 128 / 2) / hz) - 1\<close>, under the same rounding as \<open>BeepPin1::freq\<close>.
\<close>

theorem BeepPin2_freq_whole_hz:
  assumes "0 \<le> F_CPU" and "0 < hz" and "2 * (F_CPU div 128 div 2) + hz \<le> 2 ^ 23"
    and "round_half_up (of_int (F_CPU div 128 div 2) / of_int hz) \<le> 65535"
  shows "BeepPin2_freq F_CPU (of_int hz)
           = Some (word_of_int (spec_count (F_CPU div 128 div 2) (of_int hz)))
         \<and> spec_count (F_CPU div 128 div 2) (of_int hz)
           = \<lfloor>(of_int (F_CPU div 128 div 2) + of_int hz / 2 :: rat) / of_int hz\<rfloor> - 1"
proof -
  let ?n = "F_CPU div 128 div 2"
  have n0: "0 \<le> ?n" using assms(1) by (simp add: pos_imp_zdiv_nonneg_iff)
  have k: "(2 * ?n + hz) div (2 * hz) < 65536"
    using assms(4) round_half_up_quotient [OF assms(2), of ?n] by simp
  have "BeepPin2_freq F_CPU (of_int hz) = count_of ?n (of_int hz)"
    using assms(1) by (rule BeepPin2_freq_count_of)
  also have "\<dots> = Some (word_of_int ((2 * ?n + hz) div (2 * hz) - 1))"
    using count_of_whole [OF assms(2) n0 assms(3)] k by simp
  also have "(2 * ?n + hz) div (2 * hz) - 1 = spec_count ?n (of_int hz)"
    using spec_count_whole [OF assms(2)] by simp
  finally have a: "BeepPin2_freq F_CPU (of_int hz) = Some (word_of_int (spec_count ?n (of_int hz)))" .
  have "(0::rat) < of_int hz" using assms(2) by simp
  from round_half_up_add_half [OF this]
  have b: "spec_count ?n (of_int hz) = \<lfloor>(of_int ?n + of_int hz / 2 :: rat) / of_int hz\<rfloor> - 1"
    by (simp add: spec_count_def)
  from a b show ?thesis by (simp only:)
qed

text \<open>
  At 16 MHz the whole frequencies from 62 Hz to 15625 Hz give the counts from 1007 down
  to 3, inside the range from 3 to 1023 that the header allows.
\<close>

theorem BeepPin2_freq_whole_hz_witness:
  "(0::int) \<le> 16000000 \<and> (0::int) < 62 \<and> 2 * (16000000 div 128 div 2) + 62 \<le> (2::int) ^ 23
   \<and> round_half_up (of_int (16000000 div 128 div 2) / of_int 62) \<le> 65535
   \<and> BeepPin2_freq 16000000 62 = Some 1007
   \<and> BeepPin2_freq 16000000 15625 = Some 3"
proof -
  have r: "round_half_up (of_int (16000000 div 128 div 2) / of_int 62) = 1008"
    using round_half_up_quotient [of 62 "16000000 div 128 div 2"] by simp
  then have s: "spec_count (16000000 div 128 div 2) (of_int 62) = 1007"
    by (simp add: spec_count_def)
  have r': "round_half_up (of_int (16000000 div 128 div 2) / of_int 15625) = 4"
    using round_half_up_quotient [of 15625 "16000000 div 128 div 2"] by simp
  then have s': "spec_count (16000000 div 128 div 2) (of_int 15625) = 3"
    by (simp add: spec_count_def)
  have a: "BeepPin2_freq 16000000 62 = Some 1007"
    using BeepPin2_freq_whole_hz [of 16000000 62] r s by simp
  have b: "BeepPin2_freq 16000000 15625 = Some 3"
    using BeepPin2_freq_whole_hz [of 16000000 15625] r' s' by simp
  from r a b show ?thesis by simp
qed

text \<open>
  Claim C3 as stated fails: at the \<open>float\<close> 13888.8896484375, inside the valid range,
  the function returns 4, where the formula gives 3; and at 0.5 Hz the quotient does
  not fit \<open>uint16_t\<close>.
\<close>

theorem BeepPin2_freq_counterexample:
  "fl32 (14222223 / 1024) = 14222223 / 1024
   \<and> BeepPin2_freq 16000000 (14222223 / 1024) = Some 4
   \<and> spec_count (16000000 div 128 div 2) (14222223 / 1024) = 3
   \<and> BeepPin2_freq 16000000 (1 / 2) = None
   \<and> spec_count (16000000 div 128 div 2) (1 / 2) = 124999"
  by code_simp


text \<open>
  Claim C5, as amended. On either channel, for every whole-number frequency \<open>hz\<close> in the
  exact range whose count is at least 1, the frequency of that count differs from \<open>hz\<close>
  by at most half the step between the count and the next lower count (the next higher
  frequency).
\<close>

theorem freq_roundtrip_whole_hz:
  assumes "BeepPin1_freq F_CPU (of_int hz) = Some c \<and> n = F_CPU div 8 div 2
           \<or> BeepPin2_freq F_CPU (of_int hz) = Some c \<and> n = F_CPU div 128 div 2"
    and "0 \<le> F_CPU" and "0 < hz" and "2 * n + hz \<le> 2 ^ 23" and "hz \<le> 2 * n" and "1 \<le> uint c"
  shows "\<bar>count_frequency n (uint c) - of_int hz\<bar> \<le> freq_step n (uint c - 1) / 2"
proof -
  from assms(1,2) have c: "count_of n (of_int hz) = Some c" and n: "0 \<le> n"
    by (auto simp: BeepPin1_freq_count_of BeepPin2_freq_count_of pos_imp_zdiv_nonneg_iff)
  from c n assms(3-6) show ?thesis by (rule count_of_whole_roundtrip)
qed

text \<open>401000 Hz on channel A (count 1) and 13900 Hz on channel B (count 3), at 16 MHz.\<close>

theorem freq_roundtrip_whole_hz_witness:
  "BeepPin1_freq 16000000 401000 = Some 1
   \<and> BeepPin2_freq 16000000 13900 = Some 3
   \<and> \<bar>count_frequency 1000000 1 - 401000\<bar> \<le> freq_step 1000000 0 / 2
   \<and> \<bar>count_frequency 62500 3 - 13900\<bar> \<le> freq_step 62500 2 / 2"
proof -
  have a: "BeepPin1_freq 16000000 401000 = Some 1" by code_simp
  have b: "BeepPin2_freq 16000000 13900 = Some 3" by code_simp
  have "\<bar>count_frequency 1000000 (uint (1 :: 16 word)) - of_int 401000\<bar>
          \<le> freq_step 1000000 (uint (1 :: 16 word) - 1) / 2"
    by (rule freq_roundtrip_whole_hz [of 16000000 401000 1 1000000]) (simp_all add: a)
  then have c: "\<bar>count_frequency 1000000 1 - 401000\<bar> \<le> freq_step 1000000 0 / 2" by simp
  have "\<bar>count_frequency 62500 (uint (3 :: 16 word)) - of_int 13900\<bar>
          \<le> freq_step 62500 (uint (3 :: 16 word) - 1) / 2"
    by (rule freq_roundtrip_whole_hz [of 16000000 13900 3 62500]) (simp_all add: b)
  then have d: "\<bar>count_frequency 62500 3 - 13900\<bar> \<le> freq_step 62500 2 / 2" by simp
  from a b c d show ?thesis by (intro conjI)
qed

text \<open>
  Claim C5 as stated fails. On channel A, 700000 Hz gives the count 0, whose frequency
  1 MHz is 300000 Hz away; the only adjacent count is 1, at 500 kHz, and half that step
  is 250000 Hz. On channel B, 13900 Hz gives the count 3 (15625 Hz), 1725 Hz away, more
  than half the step of 3125 Hz to the count 4. And at the \<open>float\<close> 487.4482421875 on
  channel A the rounding of the sum moves the count to 2051, whose frequency is further
  from the argument than half the step between the counts 2050 and 2051.
\<close>

theorem freq_roundtrip_counterexample:
  "BeepPin1_freq 16000000 700000 = Some 0
   \<and> \<not> \<bar>count_frequency 1000000 0 - 700000\<bar> \<le> freq_step 1000000 0 / 2
   \<and> BeepPin2_freq 16000000 13900 = Some 3
   \<and> \<not> \<bar>count_frequency 62500 3 - 13900\<bar> \<le> freq_step 62500 3 / 2
   \<and> fl32 (499147 / 1024) = 499147 / 1024
   \<and> BeepPin1_freq 16000000 (499147 / 1024) = Some 2051
   \<and> \<not> \<bar>count_frequency 1000000 2051 - 499147 / 1024\<bar> \<le> freq_step 1000000 2050 / 2"
  by code_simp


text \<open>
  Claim C4. On either channel, for every pair of \<open>float\<close> frequencies \<open>hz1 \<le> hz2\<close> in the
  valid range (both conversions are defined, and \<open>hz2\<close> is at most twice the constant
  \<open>n\<close>, so that the count does not wrap below 0), \<open>freq(hz1) \<ge> freq(hz2)\<close>. This holds
  for every clock rate with \<open>n < 2 ^ 23\<close>.
\<close>

theorem freq_antimono:
  assumes "BeepPin1_freq F_CPU hz1 = Some c1 \<and> BeepPin1_freq F_CPU hz2 = Some c2
             \<and> n = F_CPU div 8 div 2
           \<or> BeepPin2_freq F_CPU hz1 = Some c1 \<and> BeepPin2_freq F_CPU hz2 = Some c2
             \<and> n = F_CPU div 128 div 2"
    and "0 \<le> F_CPU" and "n < 2 ^ 23"
    and "fl32 hz1 = hz1" and "fl32 hz2 = hz2"
    and "0 < hz1" and "hz1 \<le> hz2" and "hz2 \<le> 2 * of_int n"
  shows "c2 \<le> c1"
proof -
  from assms(1,2) have "count_of n hz1 = Some c1" and "count_of n hz2 = Some c2"
    by (auto simp: BeepPin1_freq_count_of BeepPin2_freq_count_of)
  then show ?thesis using assms(4-8) assms(3) by (rule count_of_antimono)
qed

text \<open>
  At 16 MHz: 440 Hz and 1000 Hz on channel A, and the \<open>float\<close> 13888.8896484375 and
  15625 Hz on channel B.
\<close>

theorem freq_antimono_witness:
  "BeepPin1_freq 16000000 440 = Some 2272 \<and> BeepPin1_freq 16000000 1000 = Some 999
   \<and> fl32 440 = 440 \<and> fl32 1000 = 1000 \<and> (999 :: 16 word) \<le> 2272
   \<and> BeepPin2_freq 16000000 (14222223 / 1024) = Some 4 \<and> BeepPin2_freq 16000000 15625 = Some 3
   \<and> fl32 (14222223 / 1024) = 14222223 / 1024 \<and> fl32 15625 = 15625 \<and> (3 :: 16 word) \<le> 4"
proof -
  have a1: "BeepPin1_freq 16000000 440 = Some 2272" by code_simp
  have a2: "BeepPin1_freq 16000000 1000 = Some 999" by code_simp
  have a3: "fl32 440 = 440" by code_simp
  have a4: "fl32 1000 = 1000" by code_simp
  have a: "(999 :: 16 word) \<le> 2272"
    by (rule freq_antimono [of 16000000 440 2272 1000 999 1000000])
       (simp_all add: a1 a2 a3 a4)
  have b1: "BeepPin2_freq 16000000 (14222223 / 1024) = Some 4" by code_simp
  have b2: "BeepPin2_freq 16000000 15625 = Some 3" by code_simp
  have b3: "fl32 (14222223 / 1024) = 14222223 / 1024" by code_simp
  have b4: "fl32 15625 = 15625" by code_simp
  have b: "(3 :: 16 word) \<le> 4"
    by (rule freq_antimono [of 16000000 "14222223 / 1024" 4 15625 3 62500])
       (simp_all add: b1 b2 b3 b4)
  from a1 a2 a3 a4 a b1 b2 b3 b4 b show ?thesis by (intro conjI)
qed

end
